theory Spec2Isabelle
  imports Main "HOL-Library.Char_ord" "HOL-Library.List_Lexorder" "HOL-Library.Multiset"
    "HOL-Library.Sublist"
begin

section \<open>Python strings\<close>

text \<open>
  Python strings are modelled as \<^typ>\<open>string\<close>; a character stands for the code point
  of the same number. \<open>isspace\<close> lists the code points below 256 for which
  \<^verbatim>\<open>str.isspace\<close> holds; \<^verbatim>\<open>str.strip()\<close>, \<^verbatim>\<open>str.split()\<close> and the
  regular expression class \<^verbatim>\<open>\s\<close> all use this set.
\<close>

definition isspace :: "char \<Rightarrow> bool" where
  "isspace c = (c \<in> set [CHR 0x09, CHR 0x0A, CHR 0x0B, CHR 0x0C, CHR 0x0D,
                          CHR 0x1C, CHR 0x1D, CHR 0x1E, CHR 0x1F, CHR 0x20,
                          CHR 0x85, CHR 0xA0])"

definition strip :: "string \<Rightarrow> string" where
  "strip s = rev (dropWhile isspace (rev (dropWhile isspace s)))"

text \<open>\<^verbatim>\<open>s.split()\<close>: the maximal runs of non-whitespace characters, in order.
  The first argument is the word read so far.\<close>

fun split_from :: "string \<Rightarrow> string \<Rightarrow> string list" where
  "split_from w [] = (if w = [] then [] else [w])"
| "split_from w (c # cs) =
     (if isspace c then (if w = [] then split_from [] cs else w # split_from [] cs)
      else split_from (w @ [c]) cs)"

definition split :: "string \<Rightarrow> string list" where
  "split s = split_from [] s"

text \<open>The extended slice \<^verbatim>\<open>xs[start::2]\<close> for a start \<open>\<ge> 0\<close>.\<close>

fun step2 :: "'a list \<Rightarrow> 'a list" where
  "step2 [] = []"
| "step2 [x] = [x]"
| "step2 (x # y # zs) = x # step2 zs"

definition slice2 :: "nat \<Rightarrow> 'a list \<Rightarrow> 'a list" where
  "slice2 start xs = step2 (drop start xs)"

section \<open>Element trees\<close>

text \<open>
  A tag is a string, or one of the factory functions that lxml stores in the \<^verbatim>\<open>tag\<close>
  field of comments and processing instructions; \<^verbatim>\<open>callable(x.tag)\<close> tells them apart.
\<close>

datatype tag = Name string | Comment | ProcessingInstruction

fun callable :: "tag \<Rightarrow> bool" where
  "callable (Name s) = False"
| "callable Comment = True"
| "callable ProcessingInstruction = True"

text \<open>
  An element has the fields the functions read: \<^verbatim>\<open>tag\<close>, \<^verbatim>\<open>attrib\<close> (a dict, kept as
  an association list with distinct keys in insertion order), \<^verbatim>\<open>text\<close>, \<^verbatim>\<open>tail\<close> and
  the ordered children. \<open>ident\<close> is the identity of the Python object: \<^verbatim>\<open>a is b\<close> is
  \<open>ident a = ident b\<close>.
\<close>

datatype element =
  Element (ident: nat) (tag: tag) (attrib: "(string \<times> string) list")
          (text': "string option") (tail: "string option") (children: "element list")

section \<open>Schema location hints\<close>

text \<open>
  \<^verbatim>\<open>etree_iter_location_hints\<close>. The attribute names \<^verbatim>\<open>XSI_SCHEMA_LOCATION\<close> and
  \<^verbatim>\<open>XSI_NONS_SCHEMA_LOCATION\<close> are imported from the module \<^verbatim>\<open>qnames\<close>; here they
  are arguments. The generator is finite; its yields are listed in order.
\<close>

definition etree_iter_location_hints ::
  "string \<Rightarrow> string \<Rightarrow> element \<Rightarrow> (string \<times> string) list" where
  "etree_iter_location_hints XSI_SCHEMA_LOCATION XSI_NONS_SCHEMA_LOCATION elem =
     (case map_of (attrib elem) XSI_SCHEMA_LOCATION of
        None \<Rightarrow> []
      | Some v \<Rightarrow> (let locations = split v in zip (slice2 0 locations) (slice2 1 locations)))
     @
     (case map_of (attrib elem) XSI_NONS_SCHEMA_LOCATION of
        None \<Rightarrow> []
      | Some v \<Rightarrow> map (\<lambda>url. ('''', url)) (split v))"

section \<open>The comparator\<close>

text \<open>
  \<^verbatim>\<open>etree_elements_assert_equal\<close> returns nothing or raises. The model returns
  \<open>Inr ()\<close> or the exception: an \<^verbatim>\<open>AssertionError\<close> (with the difference its
  message names), or one of the exceptions that a library call of the function can
  raise and that the function does not catch.
\<close>

datatype difference =
    More_children | Lesser_children | Tags_differ | Attribute_differ
  | Attribute_keys_differ | Attribute_value_differ string
  | Children_number_differ | Texts_differ | Tails_differ

datatype error =
  AssertionError difference | AttributeError | KeyError | RegexError | TypeError

text \<open>
  What the comparator calls and is defined elsewhere:
  \<^item> \<^verbatim>\<open>get_namespace\<close> and \<^verbatim>\<open>get_qname\<close> of the package's own modules
    \<^verbatim>\<open>namespaces\<close> and \<^verbatim>\<open>qnames\<close>. They are functions of strings. With
    \<open>skip_comments = False\<close> the comparator also passes them the callable tag of a
    comment or processing instruction; what they do with it, an exception included, is
    \<open>get_namespace_callable\<close> and \<open>get_qname_callable\<close>;
  \<^item> \<open>float_equal a b\<close>: \<^verbatim>\<open>float(a) == float(b)\<close> evaluates to true (neither
    conversion raises);
  \<^item> \<open>template r\<close>: the replacement that the \<^verbatim>\<open>re\<close> module compiles from a
    template \<open>r\<close> containing a backslash, \<open>None\<close> when it raises \<^verbatim>\<open>re.error\<close>.
\<close>

record externals =
  get_namespace :: "string \<Rightarrow> string"
  get_qname :: "string \<Rightarrow> string \<Rightarrow> string"
  get_namespace_callable :: "tag \<Rightarrow> error + string"
  get_qname_callable :: "string \<Rightarrow> tag \<Rightarrow> error + tag"
  float_equal :: "string \<Rightarrow> string \<Rightarrow> bool"
  template :: "string \<Rightarrow> string option"

text \<open>\<^verbatim>\<open>re.compile(r'\s+').sub(repl, s)\<close>: every maximal run of whitespace of \<open>s\<close>
  is replaced. A replacement without backslash is taken literally.\<close>

function replace_spaces :: "string \<Rightarrow> string \<Rightarrow> string" where
  "replace_spaces r [] = []"
| "replace_spaces r (c # cs) =
     (if isspace c then r @ replace_spaces r (dropWhile isspace cs)
      else c # replace_spaces r cs)"
  by pat_completeness auto
termination
  by (relation "measure (\<lambda>(r, s). length s)")
     (auto simp: length_dropWhile_le less_Suc_eq_le)

definition REGEX_SPACES_sub :: "externals \<Rightarrow> string \<Rightarrow> string \<Rightarrow> error + string" where
  "REGEX_SPACES_sub lib repl s =
     (case (if CHR 0x5C \<in> set repl then template lib repl else Some repl) of
        None \<Rightarrow> Inl RegexError
      | Some r \<Rightarrow> Inr (replace_spaces r s))"

definition py_assert :: "bool \<Rightarrow> difference \<Rightarrow> error + unit" where
  "py_assert b d = (if b then Inr () else Inl (AssertionError d))"

text \<open>Equality of two dicts: the same keys with the same values.\<close>

definition dict_eq :: "(string \<times> string) list \<Rightarrow> (string \<times> string) list \<Rightarrow> bool" where
  "dict_eq a b =
     (set (map fst a) = set (map fst b) \<and> list_all (\<lambda>k. map_of a k = map_of b k) (map fst a))"

text \<open>The sort key of the unordered mode:
  \<^verbatim>\<open>lambda x: '' if callable(x.tag) else x.tag\<close>.\<close>

definition sort_tag :: "element \<Rightarrow> string" where
  "sort_tag x = (case tag x of Name s \<Rightarrow> s | _ \<Rightarrow> [])"

definition sorted_children :: "bool \<Rightarrow> element \<Rightarrow> element list" where
  "sorted_children unordered elem =
     (if unordered then sort_key sort_tag (children elem) else children elem)"

text \<open>Lines 295 to 300: the tags. \<open>namespace_of\<close> and \<open>qname_of\<close> are the calls
  of \<^verbatim>\<open>get_namespace\<close> and \<^verbatim>\<open>get_qname\<close> on a tag. The result is the running
  namespace.\<close>

definition namespace_of :: "externals \<Rightarrow> tag \<Rightarrow> error + string" where
  "namespace_of lib t =
     (case t of Name s \<Rightarrow> Inr (get_namespace lib s) | _ \<Rightarrow> get_namespace_callable lib t)"

definition qname_of :: "externals \<Rightarrow> string \<Rightarrow> tag \<Rightarrow> error + tag" where
  "qname_of lib uri t =
     (case t of Name s \<Rightarrow> Inr (Name (get_qname lib uri s)) | _ \<Rightarrow> get_qname_callable lib uri t)"

definition check_tags ::
  "externals \<Rightarrow> bool \<Rightarrow> element \<Rightarrow> string \<Rightarrow> element \<Rightarrow> element \<Rightarrow> error + string" where
  "check_tags lib strict elem namespace e1 e2 =
     (if strict \<or> ident e1 = ident elem then
        (if tag e1 = tag e2 then Inr namespace else Inl (AssertionError Tags_differ))
      else
        (case namespace_of lib (tag e1) of
           Inl err \<Rightarrow> Inl err
         | Inr ns \<Rightarrow>
             (let namespace' = (if ns \<noteq> [] then ns else namespace)
              in case qname_of lib namespace' (tag e1) of
                   Inl err \<Rightarrow> Inl err
                 | Inr q1 \<Rightarrow>
                     (case qname_of lib namespace' (tag e2) of
                        Inl err \<Rightarrow> Inl err
                      | Inr q2 \<Rightarrow>
                          (if q1 = q2 then Inr namespace'
                           else Inl (AssertionError Tags_differ))))))"

text \<open>Lines 311 to 318: the loop over the keys of \<^verbatim>\<open>e1.attrib\<close>.\<close>

fun check_attrib_values ::
  "externals \<Rightarrow> (string \<times> string) list \<Rightarrow> (string \<times> string) list \<Rightarrow> string list
   \<Rightarrow> error + unit" where
  "check_attrib_values lib at1 at2 [] = Inr ()"
| "check_attrib_values lib at1 at2 (k # ks) =
     (case map_of at1 k of
        None \<Rightarrow> Inl KeyError
      | Some v1 \<Rightarrow>
          (case map_of at2 k of
             None \<Rightarrow> Inl KeyError
           | Some v2 \<Rightarrow>
               (let a1 = strip v1; a2 = strip v2
                in if a1 \<noteq> a2 \<and> \<not> float_equal lib a1 a2
                   then Inl (AssertionError (Attribute_value_differ k))
                   else check_attrib_values lib at1 at2 ks)))"

text \<open>Lines 303 to 318: the attributes.\<close>

definition check_attrib :: "externals \<Rightarrow> bool \<Rightarrow> element \<Rightarrow> element \<Rightarrow> error + unit" where
  "check_attrib lib strict e1 e2 =
     (if \<not> dict_eq (attrib e1) (attrib e2) then
        (if strict then Inl (AssertionError Attribute_differ)
         else if sort (map fst (attrib e1)) \<noteq> sort (map fst (attrib e2))
           then Inl (AssertionError Attribute_keys_differ)
         else check_attrib_values lib (attrib e1) (attrib e2) (map fst (attrib e1)))
      else Inr ())"

text \<open>Lines 321 to 327: the number of children.\<close>

definition check_children_number :: "bool \<Rightarrow> element \<Rightarrow> element \<Rightarrow> error + unit" where
  "check_children_number skip_comments e1 e2 =
     (let nc1 = (if skip_comments then length (filter (\<lambda>c. \<not> callable (tag c)) (children e1))
                 else length (children e1));
          nc2 = (if skip_comments then length (filter (\<lambda>c. \<not> callable (tag c)) (children e2))
                 else length (children e2))
      in py_assert (nc1 = nc2) Children_number_differ)"

text \<open>Lines 330 to 342: the texts. \<^verbatim>\<open>None.strip()\<close> raises \<^verbatim>\<open>AttributeError\<close>.
  Line 338 calls \<^verbatim>\<open>_REGEX_SPACES.sub(e1.text.strip(), '')\<close>: the stripped text is the
  replacement and the empty string is the subject.\<close>

definition check_text :: "externals \<Rightarrow> bool \<Rightarrow> element \<Rightarrow> element \<Rightarrow> error + unit" where
  "check_text lib strict e1 e2 =
     (if text' e1 \<noteq> text' e2 then
        (if strict then Inl (AssertionError Texts_differ)
         else case text' e1 of
           None \<Rightarrow>
             (case text' e2 of
                None \<Rightarrow> Inl AttributeError
              | Some t2 \<Rightarrow> py_assert (strip t2 = []) Texts_differ)
         | Some t1 \<Rightarrow>
             (case text' e2 of
                None \<Rightarrow> py_assert (strip t1 = []) Texts_differ
              | Some t2 \<Rightarrow>
                  (case REGEX_SPACES_sub lib (strip t1) [] of
                     Inl err \<Rightarrow> Inl err
                   | Inr s1 \<Rightarrow>
                       (case REGEX_SPACES_sub lib (strip t2) [] of
                          Inl err \<Rightarrow> Inl err
                        | Inr s2 \<Rightarrow>
                            (if s1 \<noteq> s2 then
                               py_assert (float_equal lib (strip t1) (strip t2)) Texts_differ
                             else Inr ())))))
      else Inr ())"

text \<open>Lines 345 to 354: the tails. The second test of the chain reads \<^verbatim>\<open>e2.text\<close>.\<close>

definition check_tail :: "bool \<Rightarrow> element \<Rightarrow> element \<Rightarrow> error + unit" where
  "check_tail strict e1 e2 =
     (if tail e1 \<noteq> tail e2 then
        (if strict then Inl (AssertionError Tails_differ)
         else case tail e1 of
           None \<Rightarrow>
             (case tail e2 of
                None \<Rightarrow> Inl AttributeError
              | Some t2 \<Rightarrow> py_assert (strip t2 = []) Tails_differ)
         | Some t1 \<Rightarrow>
             (if text' e2 = None then py_assert (strip t1 = []) Tails_differ
              else case tail e2 of
                None \<Rightarrow> Inl AttributeError
              | Some t2 \<Rightarrow> py_assert (strip t1 = strip t2) Tails_differ))
      else Inr ())"

text \<open>Lines 295 to 354 for one pair: the checks in the order of the source, the first
  failure wins. The result is the running namespace for the next pair.\<close>

definition check_pair ::
  "externals \<Rightarrow> bool \<Rightarrow> bool \<Rightarrow> element \<Rightarrow> string \<Rightarrow> element \<Rightarrow> element
   \<Rightarrow> error + string" where
  "check_pair lib strict skip_comments elem namespace e1 e2 =
     (case check_tags lib strict elem namespace e1 e2 of
        Inl err \<Rightarrow> Inl err
      | Inr namespace' \<Rightarrow>
     (case check_attrib lib strict e1 e2 of
        Inl err \<Rightarrow> Inl err
      | Inr _ \<Rightarrow>
     (case check_children_number skip_comments e1 e2 of
        Inl err \<Rightarrow> Inl err
      | Inr _ \<Rightarrow>
     (case check_text lib strict e1 e2 of
        Inl err \<Rightarrow> Inl err
      | Inr _ \<Rightarrow>
     (case check_tail strict e1 e2 of
        Inl err \<Rightarrow> Inl err
      | Inr _ \<Rightarrow> Inr namespace')))))"

lemma size_children [simp]: "size_list size (children e) < size e"
  by (cases e) simp

lemma size_list_sort_key [simp]:
  "size_list f (sort_key k xs) = size_list f xs"
proof -
  have "mset (sort_key k xs) = mset xs" by simp
  then have "sum_mset (image_mset f (mset (sort_key k xs))) = sum_mset (image_mset f (mset xs))"
    by simp
  then have "sum_list (map f (sort_key k xs)) = sum_list (map f xs)"
    by (simp only: sum_mset_sum_list [symmetric] mset_map [symmetric])
  then show ?thesis by (simp add: size_list_conv_sum_list)
qed

text \<open>
  \<^verbatim>\<open>etree_elements_assert_equal\<close>, and the loop of lines 286 to 363 as
  \<open>compare_children\<close>: its last two arguments are what is left of \<^verbatim>\<open>children\<close> and
  of the iterator \<^verbatim>\<open>other_children\<close>, \<open>namespace\<close> is the local variable.
\<close>

function etree_elements_assert_equal ::
    "externals \<Rightarrow> element \<Rightarrow> element \<Rightarrow> bool \<Rightarrow> bool \<Rightarrow> bool \<Rightarrow> error + unit"
  and compare_children ::
    "externals \<Rightarrow> element \<Rightarrow> bool \<Rightarrow> bool \<Rightarrow> bool \<Rightarrow> string
     \<Rightarrow> element list \<Rightarrow> element list \<Rightarrow> error + unit" where
  "etree_elements_assert_equal lib elem other strict skip_comments unordered =
     compare_children lib elem strict skip_comments unordered []
       (sorted_children unordered elem) (sorted_children unordered other)"
| "compare_children lib elem strict skip_comments unordered namespace [] other_children =
     (case other_children of
        [] \<Rightarrow> Inr ()
      | e2 # rest \<Rightarrow> Inl (AssertionError Lesser_children))"
| "compare_children lib elem strict skip_comments unordered namespace (e1 # es) other_children =
     (if skip_comments \<and> callable (tag e1) then
        compare_children lib elem strict skip_comments unordered namespace es other_children
      else case other_children of
        [] \<Rightarrow> Inl (AssertionError More_children)
      | e2 # rest \<Rightarrow>
          (case check_pair lib strict skip_comments elem namespace e1 e2 of
             Inl err \<Rightarrow> Inl err
           | Inr namespace' \<Rightarrow>
               (case etree_elements_assert_equal lib e1 e2 strict skip_comments unordered of
                  Inl err \<Rightarrow> Inl err
                | Inr _ \<Rightarrow>
                    compare_children lib elem strict skip_comments unordered namespace'
                      es rest)))"
  by pat_completeness auto
termination
  by (relation "measure (\<lambda>x. case x of
          Inl (lib, elem, other, strict, skip_comments, unordered) \<Rightarrow> size elem
        | Inr (lib, elem, strict, skip_comments, unordered, namespace, es, other_children) \<Rightarrow>
            size_list size es)")
     (auto simp: sorted_children_def)

declare etree_elements_assert_equal.simps [simp del]

section \<open>The pruner\<close>

text \<open>\<^verbatim>\<open>elem.remove(child)\<close> takes out the first child that is \<open>child\<close>.\<close>

fun remove_child :: "element \<Rightarrow> element list \<Rightarrow> element list" where
  "remove_child child [] = []"
| "remove_child child (c # cs) =
     (if ident c = ident child then cs else c # remove_child child cs)"

text \<open>The first loop of \<^verbatim>\<open>_prune_subtree\<close>: it runs over the copy \<^verbatim>\<open>elem[:]\<close> (the
  second argument) and removes from the children of \<open>elem\<close> (the third).\<close>

fun remove_selected :: "(element \<Rightarrow> bool) \<Rightarrow> element list \<Rightarrow> element list \<Rightarrow> element list" where
  "remove_selected selector [] cs = cs"
| "remove_selected selector (child # rest) cs =
     remove_selected selector rest (if selector child then remove_child child cs else cs)"

lemma set_remove_child: "set (remove_child x cs) \<subseteq> set cs"
  by (induction cs) auto

lemma set_remove_selected: "set (remove_selected selector copy cs) \<subseteq> set cs"
proof (induction copy arbitrary: cs)
  case (Cons child rest)
  show ?case
    using Cons [of "remove_child child cs"] Cons [of cs] set_remove_child [of child cs]
    by auto
qed simp

text \<open>\<^verbatim>\<open>_prune_subtree\<close> changes the tree in place; the model returns the element
  as it is after the call.\<close>

function prune_subtree :: "(element \<Rightarrow> bool) \<Rightarrow> element \<Rightarrow> element" where
  "prune_subtree selector (Element i t a tx ta cs) =
     Element i t a tx ta (map (prune_subtree selector) (remove_selected selector cs cs))"
  by pat_completeness auto
termination
proof (relation "measure (\<lambda>(selector, e). size e)")
  fix selector :: "element \<Rightarrow> bool" and i t a tx ta cs x
  assume "x \<in> set (remove_selected selector cs cs)"
  then have "x \<in> set cs" using set_remove_selected by blast
  then have "size x \<le> size_list size cs" by (rule size_list_estimation') simp
  then show "((selector, x), (selector, Element i t a tx ta cs)) \<in> measure (\<lambda>(selector, e). size e)"
    by simp
qed simp

text \<open>\<^verbatim>\<open>prune_etree\<close>: the root after the call, and the value returned
  (\<open>None\<close> when the function ends without a \<^verbatim>\<open>return\<close>).\<close>

definition prune_etree :: "element \<Rightarrow> (element \<Rightarrow> bool) \<Rightarrow> element \<times> bool option" where
  "prune_etree root selector =
     (if selector root then
        (Element (ident root) (tag root) (attrib root) (text' root) (tail root) [], Some True)
      else (prune_subtree selector root, None))"

section \<open>The path indexer\<close>

text \<open>\<^verbatim>\<open>'%d' % n\<close> for \<open>n \<ge> 0\<close>.\<close>

fun str_nat :: "nat \<Rightarrow> string" where
  "str_nat n =
     (if n < 10 then [''0123456789'' ! n]
      else str_nat (n div 10) @ [''0123456789'' ! (n mod 10)])"

declare str_nat.simps [simp del]

text \<open>
  What the path functions call and is defined elsewhere:
  \<^verbatim>\<open>get_prefixed_qname\<close> of the package's module \<^verbatim>\<open>qnames\<close>, and the text that
  \<^verbatim>\<open>'%s' % tag\<close> gives for a callable tag.
\<close>

record path_externals =
  get_prefixed_qname :: "tag \<Rightarrow> (string \<times> string) list \<Rightarrow> string"
  str_callable :: "tag \<Rightarrow> string"

definition str_tag :: "path_externals \<Rightarrow> tag \<Rightarrow> string" where
  "str_tag lib t = (case t of Name s \<Rightarrow> s | _ \<Rightarrow> str_callable lib t)"

text \<open>Lines 195 to 199: \<^verbatim>\<open>positions\<close> holds the counter 1 for every tag that more
  than one child has; without \<^verbatim>\<open>add_position\<close> it is empty.\<close>

definition initial_positions :: "bool \<Rightarrow> element \<Rightarrow> tag \<Rightarrow> nat option" where
  "initial_positions add_position elem =
     (if add_position
      then (\<lambda>t. if count_list (map tag (children elem)) t > 1 then Some 1 else None)
      else (\<lambda>t. None))"

text \<open>Lines 205 to 211.\<close>

definition child_path_of ::
  "path_externals \<Rightarrow> string \<Rightarrow> (string \<times> string) list option \<Rightarrow> element \<Rightarrow> string" where
  "child_path_of lib path namespaces child =
     (let child_name = (case namespaces of None \<Rightarrow> str_tag lib (tag child)
                        | Some ns \<Rightarrow> get_prefixed_qname lib (tag child) ns)
      in if path = ''/'' then ''/'' @ child_name
         else if path \<noteq> [] then path @ ''/'' @ child_name
         else child_name)"

text \<open>
  \<^verbatim>\<open>etree_iterpath\<close>: the generator is finite, the model lists its yields in order.
  \<open>iterpath_children\<close> is the loop of lines 201 to 217 over the children that are left,
  with the counters \<^verbatim>\<open>positions\<close>.
\<close>

function etree_iterpath ::
    "path_externals \<Rightarrow> element \<Rightarrow> tag option \<Rightarrow> string \<Rightarrow> (string \<times> string) list option
     \<Rightarrow> bool \<Rightarrow> (element \<times> string) list"
  and iterpath_children ::
    "path_externals \<Rightarrow> tag option \<Rightarrow> string \<Rightarrow> (string \<times> string) list option
     \<Rightarrow> bool \<Rightarrow> (tag \<Rightarrow> nat option) \<Rightarrow> element list \<Rightarrow> (element \<times> string) list" where
  "etree_iterpath lib elem tg path namespaces add_position =
     (let tg' = (if tg = Some (Name ''*'') then None else tg)
      in (if tg' = None \<or> Some (tag elem) = tg' then [(elem, path)] else [])
         @ iterpath_children lib tg' path namespaces add_position
             (initial_positions add_position elem) (children elem))"
| "iterpath_children lib tg path namespaces add_position positions [] = []"
| "iterpath_children lib tg path namespaces add_position positions (child # rest) =
     (if callable (tag child) then
        iterpath_children lib tg path namespaces add_position positions rest
      else
        (let child_path = child_path_of lib path namespaces child
         in case positions (tag child) of
              Some n \<Rightarrow>
                etree_iterpath lib child tg (child_path @ ''['' @ str_nat n @ '']'')
                  namespaces add_position
                @ iterpath_children lib tg path namespaces add_position
                    (positions(tag child \<mapsto> n + 1)) rest
            | None \<Rightarrow>
                etree_iterpath lib child tg child_path namespaces add_position
                @ iterpath_children lib tg path namespaces add_position positions rest))"
  by pat_completeness auto
termination
  by (relation "measure (\<lambda>x. case x of
          Inl (lib, elem, tg, path, namespaces, add_position) \<Rightarrow> size elem
        | Inr (lib, tg, path, namespaces, add_position, positions, es) \<Rightarrow> size_list size es)")
     auto

declare etree_iterpath.simps [simp del]

text \<open>\<^verbatim>\<open>etree_getpath\<close>: \<^verbatim>\<open>return\<close> inside a loop over the generator takes the
  first yield that passes the test; the function ends without \<^verbatim>\<open>return\<close> (\<open>None\<close>)
  when there is none. \<^verbatim>\<open>elem in e\<close> compares the children of \<open>e\<close> with \<open>elem\<close> by
  identity. A dict is true when it is not empty.\<close>

definition is_child_of :: "element \<Rightarrow> element \<Rightarrow> bool" where
  "is_child_of elem e = list_ex (\<lambda>c. ident c = ident elem) (children e)"

definition etree_getpath ::
  "path_externals \<Rightarrow> element \<Rightarrow> element \<Rightarrow> (string \<times> string) list option \<Rightarrow> bool \<Rightarrow> bool
   \<Rightarrow> bool \<Rightarrow> string option" where
  "etree_getpath lib elem root namespaces relative add_position parent_path =
     (let path =
        (if relative then ''.''
         else case namespaces of
           None \<Rightarrow> ''/'' @ str_tag lib (tag root)
         | Some ns \<Rightarrow> (if ns \<noteq> [] then ''/'' @ get_prefixed_qname lib (tag root) ns
                     else ''/'' @ str_tag lib (tag root)))
      in if \<not> parent_path then
           map_option snd (find (\<lambda>(e, p). ident e = ident elem)
             (etree_iterpath lib root (Some (tag elem)) path namespaces add_position))
         else if is_child_of elem root then Some path
         else
           map_option snd (find (\<lambda>(e, p). is_child_of elem e)
             (etree_iterpath lib root (Some (tag elem)) path namespaces add_position)))"

section \<open>The serializer\<close>

text \<open>
  \<^verbatim>\<open>etree_tostring\<close> from line 157 on. What comes before chooses the ElementTree
  module and calls its \<^verbatim>\<open>tostring\<close>; the text that call returns is the argument
  \<open>xml_text\<close> of the model. The exceptions that the rest can raise:
  \<^verbatim>\<open>lines[-1]\<close> on an empty list and \<^verbatim>\<open>min\<close> of an empty sequence.
\<close>

datatype tostring_error = IndexError | ValueError

text \<open>\<^verbatim>\<open>str.splitlines()\<close>: the line boundaries below code point 256; \<^verbatim>\<open>\r\n\<close> is
  one boundary. The first argument is the line read so far.\<close>

definition is_linebreak :: "char \<Rightarrow> bool" where
  "is_linebreak c = (c \<in> set [CHR 0x0A, CHR 0x0B, CHR 0x0C, CHR 0x0D,
                               CHR 0x1C, CHR 0x1D, CHR 0x1E, CHR 0x85])"

fun splitlines_from :: "string \<Rightarrow> string \<Rightarrow> string list" where
  "splitlines_from l [] = (if l = [] then [] else [l])"
| "splitlines_from l [c] = (if is_linebreak c then [l] else [l @ [c]])"
| "splitlines_from l (c # d # ds) =
     (if c = CHR 0x0D \<and> d = CHR 0x0A then l # splitlines_from [] ds
      else if is_linebreak c then l # splitlines_from [] (d # ds)
      else splitlines_from (l @ [c]) (d # ds))"

definition splitlines :: "string \<Rightarrow> string list" where
  "splitlines s = splitlines_from [] s"

text \<open>\<^verbatim>\<open>s.replace('\t', ' ' * n)\<close>; a negative \<open>n\<close> gives the empty string.\<close>

definition replace_tabs :: "int \<Rightarrow> string \<Rightarrow> string" where
  "replace_tabs n s = concat (map (\<lambda>c. if c = CHR 0x09 then replicate (nat n) CHR '' '' else [c]) s)"

text \<open>\<^verbatim>\<open>'\n'.join(xs)\<close>.\<close>

fun join_lines :: "string list \<Rightarrow> string" where
  "join_lines [] = []"
| "join_lines [x] = x"
| "join_lines (x # y # ys) = x @ [CHR 0x0A] @ join_lines (y # ys)"

text \<open>The slices \<^verbatim>\<open>xs[i:]\<close> and \<^verbatim>\<open>xs[:k]\<close>: a negative index counts from the end.\<close>

definition slice_from :: "int \<Rightarrow> 'a list \<Rightarrow> 'a list" where
  "slice_from i xs = (if 0 \<le> i then drop (nat i) xs else drop (nat (int (length xs) + i)) xs)"

definition slice_to :: "int \<Rightarrow> 'a list \<Rightarrow> 'a list" where
  "slice_to k xs = (if 0 \<le> k then take (nat k) xs else take (nat (int (length xs) + k)) xs)"

text \<open>Lines 157 to 160: the lines, without the blank lines at the end.\<close>

definition tostring_lines :: "string \<Rightarrow> int \<Rightarrow> bool \<Rightarrow> string list" where
  "tostring_lines xml_text spaces_for_tab xml_declaration =
     (let lines = (if xml_declaration then [''<?xml version=\"1.0\" encoding=\"UTF-8\"?>''] else [])
                  @ splitlines (replace_tabs spaces_for_tab xml_text)
      in rev (dropWhile (\<lambda>l. strip l = []) (rev lines)))"

text \<open>\<^verbatim>\<open>k for k in range(len(line)) if line[k] != ' '\<close>, and \<^verbatim>\<open>min\<close> of a sequence.\<close>

definition non_space_positions :: "string \<Rightarrow> nat list" where
  "non_space_positions line = filter (\<lambda>k. line ! k \<noteq> CHR '' '') [0..<length line]"

fun py_min :: "nat list \<Rightarrow> tostring_error + nat" where
  "py_min [] = Inl ValueError"
| "py_min (k # ks) = Inr (fold min ks k)"

text \<open>Lines 162 to 169: \<open>(last_indent, child_indent, min_indent)\<close>. The minimum of two
  strings is the one that is first in the order of strings.\<close>

definition indents :: "string list \<Rightarrow> tostring_error + (string \<times> string \<times> string)" where
  "indents lines =
     (if lines = [] then Inl IndexError
      else case py_min (non_space_positions (last lines)) of
        Inl err \<Rightarrow> Inl err
      | Inr k \<Rightarrow>
          (let last_indent = replicate k CHR '' ''
           in if length lines > 2 then
                (case py_min (concat (map non_space_positions (butlast (tl lines)))) of
                   Inl err \<Rightarrow> Inl err
                 | Inr j \<Rightarrow>
                     (let child_indent = replicate j CHR '' ''
                      in Inr (last_indent, child_indent, min child_indent last_indent)))
              else Inr (last_indent, last_indent, last_indent)))"

text \<open>The local function \<^verbatim>\<open>reindent\<close>, with the variables it reads as arguments.\<close>

definition reindent :: "string \<Rightarrow> string \<Rightarrow> int \<Rightarrow> string \<Rightarrow> string" where
  "reindent indent min_indent start line =
     (if line = [] then line
      else if prefix min_indent line then
        (if 0 \<le> start then slice_from start line else slice_from start indent @ line)
      else indent @ line)"

text \<open>Lines 173 and 174.\<close>

definition truncate_lines :: "int option \<Rightarrow> string \<Rightarrow> string list \<Rightarrow> string list" where
  "truncate_lines max_lines child_indent lines =
     (case max_lines of
        None \<Rightarrow> lines
      | Some k \<Rightarrow>
          (if int (length lines) > k + 2
           then slice_to k lines @ replicate 2 (child_indent @ ''...'') @ slice_from (- 1) lines
           else lines))"

definition etree_tostring ::
  "string \<Rightarrow> string \<Rightarrow> int option \<Rightarrow> int \<Rightarrow> bool \<Rightarrow> tostring_error + string" where
  "etree_tostring xml_text indent max_lines spaces_for_tab xml_declaration =
     (let lines = tostring_lines xml_text spaces_for_tab xml_declaration
      in case indents lines of
           Inl err \<Rightarrow> Inl err
         | Inr (last_indent, child_indent, min_indent) \<Rightarrow>
             (let start = int (length min_indent) - int (length indent)
              in Inr (join_lines (map (reindent indent min_indent start)
                                      (truncate_lines max_lines child_indent lines)))))"

section \<open>Notions used in the statements\<close>

text \<open>The whitespace-separated tokens of an attribute of an element; none when the
  element does not carry the attribute.\<close>

definition hint_tokens :: "element \<Rightarrow> string \<Rightarrow> string list" where
  "hint_tokens elem name = (case map_of (attrib elem) name of None \<Rightarrow> [] | Some v \<Rightarrow> split v)"

text \<open>The position qualifier of the child number \<open>i\<close> (from 0) of a parent whose
  children have the tags \<open>tags\<close>: \<^verbatim>\<open>[n]\<close> when the tag of the child occurs more than
  once among them, where the child is the \<open>n\<close>-th of its tag in document order, counted
  from 1; nothing otherwise.\<close>

definition position_qualifier :: "tag list \<Rightarrow> nat \<Rightarrow> string" where
  "position_qualifier tags i =
     (if 1 < count_list tags (tags ! i)
      then ''['' @ str_nat (Suc (count_list (take i tags) (tags ! i))) @ '']''
      else [])"

definition expected_child_path ::
  "path_externals \<Rightarrow> string \<Rightarrow> (string \<times> string) list option \<Rightarrow> element list \<Rightarrow> nat \<Rightarrow> string" where
  "expected_child_path lib path namespaces cs i =
     child_path_of lib path namespaces (cs ! i) @ position_qualifier (map tag cs) i"

text \<open>The elements below an element, in document order, and the subtree of an element:
  the element itself and the elements below it.\<close>

fun descendants :: "element \<Rightarrow> element list" where
  "descendants (Element i t a tx ta cs) = concat (map (\<lambda>c. c # descendants c) cs)"

definition subtree :: "element \<Rightarrow> element list" where
  "subtree e = e # descendants e"

text \<open>An instance of the external functions of the path indexer, for the examples:
  names are shown as they are, without prefix.\<close>

definition plain_names :: path_externals where
  "plain_names =
     \<lparr> get_prefixed_qname = (\<lambda>t ns. case t of Name s \<Rightarrow> s | _ \<Rightarrow> []),
       str_callable = (\<lambda>t. []) \<rparr>"

text \<open>The elements below an element that can be reached through children for which
  the selector is false, in document order: the children for which the selector is
  false, each followed by its own such elements. \<open>label\<close> is what an element holds
  besides its children.\<close>

fun survivors :: "(element \<Rightarrow> bool) \<Rightarrow> element \<Rightarrow> element list" where
  "survivors selector (Element i t a tx ta cs) =
     concat (map (\<lambda>c. c # survivors selector c) (filter (\<lambda>c. \<not> selector c) cs))"

definition label ::
  "element \<Rightarrow> nat \<times> tag \<times> (string \<times> string) list \<times> string option \<times> string option" where
  "label e = (ident e, tag e, attrib e, text' e, tail e)"

text \<open>A remaining element \<open>n'\<close> against the element \<open>n\<close> it was before the call: it holds
  what it held, its children are the children of \<open>n\<close> for which the selector is false,
  in order, and the elements below it are the survivors of \<open>n\<close>.\<close>

definition pruned_node :: "(element \<Rightarrow> bool) \<Rightarrow> element \<Rightarrow> element \<Rightarrow> bool" where
  "pruned_node selector n' n =
     (label n' = label n
      \<and> map label (children n') = map label (filter (\<lambda>c. \<not> selector c) (children n))
      \<and> map label (descendants n') = map label (survivors selector n))"

text \<open>A line without its leading spaces.\<close>

definition content :: "string \<Rightarrow> string" where
  "content line = dropWhile (\<lambda>c. c = CHR '' '') line"

section \<open>Schema location hints: properties\<close>

lemma step2_Cons: "step2 (y # zs) = y # step2 (drop (Suc 0) zs)"
  by (cases zs) simp_all

lemma zip_step2:
  "zip (step2 xs) (step2 (drop (Suc 0) xs)) =
     map (\<lambda>i. (xs ! (2 * i), xs ! (2 * i + 1))) [0..<length xs div 2]"
proof (induction xs rule: step2.induct)
  case (3 x y zs)
  have "[0..<Suc (length zs div 2)] = 0 # map Suc [0..<length zs div 2]"
    by (simp add: upt_conv_Cons map_Suc_upt del: upt_Suc)
  then show ?case
    using 3 by (simp add: step2_Cons comp_def del: upt_Suc)
qed simp_all

text \<open>
  Claim C10. With \<open>n\<close> tokens in the schema location attribute and \<open>m\<close> tokens in the
  no-namespace attribute, \<^verbatim>\<open>etree_iter_location_hints\<close> yields the pairs (token \<open>2i\<close>,
  token \<open>2i+1\<close>) for \<open>i < n div 2\<close>, so an unpaired last token is dropped, and then one
  pair of the empty string and the token for each of the \<open>m\<close> tokens: \<open>n div 2 + m\<close>
  pairs. An absent attribute has no tokens, so an element with neither attribute
  yields nothing.
\<close>

theorem etree_iter_location_hints_pairs:
  "etree_iter_location_hints sl nsl elem =
     map (\<lambda>i. (hint_tokens elem sl ! (2 * i), hint_tokens elem sl ! (2 * i + 1)))
         [0..<length (hint_tokens elem sl) div 2]
     @ map (\<lambda>url. ([], url)) (hint_tokens elem nsl)
   \<and> length (etree_iter_location_hints sl nsl elem) =
       length (hint_tokens elem sl) div 2 + length (hint_tokens elem nsl)"
  by (simp add: etree_iter_location_hints_def hint_tokens_def slice2_def zip_step2 Let_def
           split: option.splits)

text \<open>Five tokens give two pairs; an element with neither attribute gives none.\<close>

theorem etree_iter_location_hints_example:
  "etree_iter_location_hints ''sl'' ''nsl''
     (Element 0 (Name ''r'') [(''sl'', ''n1 u1  n2 u2 n3''), (''nsl'', '' x y'')] None None [])
   = [(''n1'', ''u1''), (''n2'', ''u2''), ([], ''x''), ([], ''y'')]
   \<and> etree_iter_location_hints ''sl'' ''nsl''
       (Element 0 (Name ''r'') [(''id'', ''7'')] None None []) = []"
  using etree_iter_location_hints_pairs [of "''sl''" "''nsl''"
      "Element 0 (Name ''r'') [(''sl'', ''n1 u1  n2 u2 n3''), (''nsl'', '' x y'')] None None []"]
    etree_iter_location_hints_pairs [of "''sl''" "''nsl''"
      "Element 0 (Name ''r'') [(''id'', ''7'')] None None []"]
  by (simp add: hint_tokens_def split_def isspace_def)

section \<open>The comparator: properties\<close>

lemmas cmp_defs = etree_elements_assert_equal.simps sorted_children_def check_pair_def
  check_tags_def namespace_of_def qname_of_def check_attrib_def dict_eq_def check_children_number_def check_text_def
  check_tail_def py_assert_def REGEX_SPACES_sub_def strip_def isspace_def Let_def

text \<open>
  Claim C9. Two elements without children compare equal under every combination of
  the flags, whatever their tags, attributes, texts and tails are: the loop runs over
  the children only, and the pair of the arguments is not compared.
\<close>

theorem assert_equal_childless:
  "etree_elements_assert_equal lib (Element i1 t1 a1 x1 l1 []) (Element i2 t2 a2 x2 l2 [])
     strict skip_comments unordered = Inr ()"
  by (simp add: etree_elements_assert_equal.simps sorted_children_def)

text \<open>Without \<open>strict\<close>, the test of the texts passes whenever both nodes have a text
  (without backslash), whatever the two texts are.\<close>

lemma check_text_both_present:
  assumes "text' e1 = Some t1" and "text' e2 = Some t2"
    and "CHR 0x5C \<notin> set (strip t1)" and "CHR 0x5C \<notin> set (strip t2)"
  shows "check_text lib False e1 e2 = Inr ()"
  using assms by (simp add: check_text_def REGEX_SPACES_sub_def)

text \<open>
  Claim C1, at the input of the claim: with \<open>strict = False\<close>, two trees that differ
  only in the text of a child, \<^verbatim>\<open>foo\<close> against \<^verbatim>\<open>bar\<close>, compare equal. Line 338 passes
  the stripped text as the replacement and the empty string as the subject of the
  substitution, so both sides of its comparison are the empty string and the numeric
  comparison is never reached.
\<close>

theorem assert_equal_foo_bar:
  "etree_elements_assert_equal lib
     (Element 0 (Name ''r'') [] None None [Element 1 (Name ''c'') [] (Some ''foo'') None []])
     (Element 2 (Name ''r'') [] None None [Element 3 (Name ''c'') [] (Some ''bar'') None []])
     False skip_comments unordered = Inr ()"
  by (simp add: cmp_defs)

text \<open>
  Claim C2, at a tree whose root has one comment child: with \<open>skip_comments = True\<close>
  the tree does not compare equal to itself. The loop skips the comment on the left
  and does not advance the iterator on the right, which still holds the comment when
  the loop ends.
\<close>

theorem assert_equal_comment_not_reflexive:
  "etree_elements_assert_equal lib
     (Element 0 (Name ''r'') [] None None [Element 1 Comment [] (Some ''note'') None []])
     (Element 0 (Name ''r'') [] None None [Element 1 Comment [] (Some ''note'') None []])
     strict True unordered = Inl (AssertionError Lesser_children)"
  by (simp add: cmp_defs)

text \<open>
  Claim C3, at two roots with the tags \<^verbatim>\<open>a\<close> and \<^verbatim>\<open>b\<close>: with \<open>strict = False\<close> they
  compare equal. The test \<^verbatim>\<open>e1 is elem\<close> of line 295 is made on a child of \<open>elem\<close>,
  and the tags of the two arguments are not compared.
\<close>

theorem assert_equal_root_tags:
  "etree_elements_assert_equal lib
     (Element 0 (Name ''a'') [] None None [])
     (Element 1 (Name ''b'') [] None None [])
     False skip_comments unordered = Inr ()"
  by (simp add: cmp_defs)

text \<open>
  Claim C4, at two inputs, with \<open>strict = False\<close>. The tails \<^verbatim>\<open>'x'\<close> and \<^verbatim>\<open>' x'\<close> are
  equal when trimmed, and the comparison fails: the text of the right node is
  \<^verbatim>\<open>None\<close>, so line 351 sends the pair to the test that the left tail is blank. The
  tail \<^verbatim>\<open>' '\<close> against the tail \<^verbatim>\<open>None\<close>, on nodes with a text, raises
  \<^verbatim>\<open>AttributeError\<close>: line 354 strips the right tail.
\<close>

theorem assert_equal_tails:
  "etree_elements_assert_equal lib
     (Element 0 (Name ''r'') [] None None [Element 1 (Name ''c'') [] None (Some ''x'') []])
     (Element 2 (Name ''r'') [] None None [Element 3 (Name ''c'') [] None (Some '' x'') []])
     False skip_comments unordered = Inl (AssertionError Tails_differ)
   \<and> etree_elements_assert_equal lib
     (Element 0 (Name ''r'') [] None None [Element 1 (Name ''c'') [] (Some ''t'') (Some '' '') []])
     (Element 2 (Name ''r'') [] None None [Element 3 (Name ''c'') [] (Some ''t'') None []])
     False skip_comments unordered = Inl AttributeError"
  by (simp add: cmp_defs)

section \<open>The path indexer: properties\<close>

lemma qualifier_at_split:
  "length ts = n \<Longrightarrow>
   position_qualifier (ts @ t # us) n =
     (if 1 < count_list (ts @ t # us) t
      then ''['' @ str_nat (Suc (count_list ts t)) @ '']'' else [])"
  by (simp add: position_qualifier_def nth_append)

lemma iterpath_children_paths:
  assumes "\<And>t. \<not> callable t \<Longrightarrow>
             positions t = (if 1 < count_list (map tag (pre @ rest)) t
                            then Some (Suc (count_list (map tag pre) t)) else None)"
  shows "iterpath_children lib tg path namespaces add_position positions rest =
           concat (map (\<lambda>i. etree_iterpath lib ((pre @ rest) ! i) tg
                               (expected_child_path lib path namespaces (pre @ rest) i)
                               namespaces add_position)
                       (filter (\<lambda>i. \<not> callable (tag ((pre @ rest) ! i)))
                               [length pre..<length (pre @ rest)]))"
  using assms
proof (induction rest arbitrary: pre positions)
  case Nil
  show ?case by simp
next
  case (Cons c rest)
  let ?cs = "pre @ c # rest"
  show ?case
  proof (cases "callable (tag c)")
    case True
    have inv: "positions t = (if 1 < count_list (map tag ((pre @ [c]) @ rest)) t
                 then Some (Suc (count_list (map tag (pre @ [c])) t)) else None)"
      if "\<not> callable t" for t
      using Cons.prems [OF that] that True by auto
    have "iterpath_children lib tg path namespaces add_position positions (c # rest) =
          iterpath_children lib tg path namespaces add_position positions rest"
      using True by simp
    also note Cons.IH [of positions "pre @ [c]", OF inv]
    finally show ?thesis
      using True by (simp del: upt_Suc add: upt_conv_Cons)
  next
    case False
    show ?thesis
    proof (cases "positions (tag c)")
      case None
      have few: "\<not> 1 < count_list (map tag ?cs) (tag c)"
        using Cons.prems [OF False] None by (auto split: if_splits)
      have inv: "positions t = (if 1 < count_list (map tag ((pre @ [c]) @ rest)) t
                   then Some (Suc (count_list (map tag (pre @ [c])) t)) else None)"
        if "\<not> callable t" for t
        using Cons.prems [OF that] few by auto
      have "iterpath_children lib tg path namespaces add_position positions (c # rest) =
            etree_iterpath lib c tg (child_path_of lib path namespaces c) namespaces add_position
            @ iterpath_children lib tg path namespaces add_position positions rest"
        using False None by (simp add: Let_def)
      also note Cons.IH [of positions "pre @ [c]", OF inv]
      finally show ?thesis
        using False few
        by (simp del: upt_Suc add: upt_conv_Cons expected_child_path_def qualifier_at_split)
    next
      case (Some n)
      have many: "1 < count_list (map tag ?cs) (tag c)"
        and n: "n = Suc (count_list (map tag pre) (tag c))"
        using Cons.prems [OF False] Some by (auto split: if_splits)
      have inv: "(positions(tag c \<mapsto> n + 1)) t =
                   (if 1 < count_list (map tag ((pre @ [c]) @ rest)) t
                    then Some (Suc (count_list (map tag (pre @ [c])) t)) else None)"
        if "\<not> callable t" for t
        using Cons.prems [OF that] many n by auto
      have "iterpath_children lib tg path namespaces add_position positions (c # rest) =
            etree_iterpath lib c tg (child_path_of lib path namespaces c @ ''['' @ str_nat n @ '']'')
              namespaces add_position
            @ iterpath_children lib tg path namespaces add_position (positions(tag c \<mapsto> n + 1)) rest"
        using False Some by (simp add: Let_def)
      also note Cons.IH [of "positions(tag c \<mapsto> n + 1)" "pre @ [c]", OF inv]
      finally show ?thesis
        using False many n
        by (simp del: upt_Suc add: upt_conv_Cons expected_child_path_def qualifier_at_split)
    qed
  qed
qed

text \<open>
  Claim C6. With \<open>add_position = True\<close>, \<^verbatim>\<open>etree_iterpath\<close> visits every child whose
  tag is not callable, in document order, with the path \<open>expected_child_path\<close>: the
  path of the parent joined with the name of the child, followed by the qualifier
  \<^verbatim>\<open>[n]\<close> if and only if the tag of the child occurs more than once among the
  children of its parent, \<open>n\<close> counting the children of that tag from 1 in document
  order.
\<close>

theorem etree_iterpath_position_qualifiers:
  "etree_iterpath lib elem tg path namespaces True =
     (if tg = None \<or> tg = Some (Name ''*'') \<or> tg = Some (tag elem) then [(elem, path)] else [])
     @ concat (map (\<lambda>i. etree_iterpath lib (children elem ! i)
                           (if tg = Some (Name ''*'') then None else tg)
                           (expected_child_path lib path namespaces (children elem) i)
                           namespaces True)
                   (filter (\<lambda>i. \<not> callable (tag (children elem ! i)))
                           [0..<length (children elem)]))"
  using iterpath_children_paths [of "initial_positions True elem" "[]" "children elem"
          lib "if tg = Some (Name ''*'') then None else tg" path namespaces True]
  by (auto simp add: initial_positions_def etree_iterpath.simps [of _ elem])

text \<open>The children tagged \<^verbatim>\<open>a\<close>, \<^verbatim>\<open>b\<close>, \<^verbatim>\<open>a\<close>, \<^verbatim>\<open>a\<close> get the paths that
  end in \<^verbatim>\<open>a[1]\<close>, \<^verbatim>\<open>b\<close>, \<^verbatim>\<open>a[2]\<close>, \<^verbatim>\<open>a[3]\<close>.\<close>

theorem etree_iterpath_a_b_a_a:
  "map snd (etree_iterpath plain_names
     (Element 0 (Name ''p'') [] None None
        [Element 1 (Name ''a'') [] None None [], Element 2 (Name ''b'') [] None None [],
         Element 3 (Name ''a'') [] None None [], Element 4 (Name ''a'') [] None None []])
     None ''/p'' None True)
   = [''/p'', ''/p/a[1]'', ''/p/b'', ''/p/a[2]'', ''/p/a[3]'']"
  using etree_iterpath_position_qualifiers [of plain_names
     "Element 0 (Name ''p'') [] None None
        [Element 1 (Name ''a'') [] None None [], Element 2 (Name ''b'') [] None None [],
         Element 3 (Name ''a'') [] None None [], Element 4 (Name ''a'') [] None None []]"
     None "''/p''" None]
  by (simp add: etree_iterpath.simps initial_positions_def child_path_of_def str_tag_def
        str_nat.simps expected_child_path_def position_qualifier_def)

lemma descendants_children:
  "set (descendants e) = (\<Union>c\<in>set (children e). set (subtree c))"
  by (cases e) (auto simp: subtree_def)

lemma iterpath_yields_subtree:
  "fst ` set (etree_iterpath lib elem tg path namespaces add_position) \<subseteq> set (subtree elem)"
  "fst ` set (iterpath_children lib tg' path' namespaces' add_position' positions es)
     \<subseteq> (\<Union>c\<in>set es. set (subtree c))"
proof (induction lib elem tg path namespaces add_position
         and lib tg' path' namespaces' add_position' positions es
       rule: etree_iterpath_iterpath_children.induct)
  case (1 lib elem tg path namespaces add_position)
  have "fst ` set (iterpath_children lib (if tg = Some (Name ''*'') then None else tg) path
                     namespaces add_position (initial_positions add_position elem) (children elem))
          \<subseteq> (\<Union>c\<in>set (children elem). set (subtree c))"
    by (rule 1) simp
  then have "fst ` set (iterpath_children lib (if tg = Some (Name ''*'') then None else tg) path
                     namespaces add_position (initial_positions add_position elem) (children elem))
          \<subseteq> set (descendants elem)"
    by (simp only: descendants_children)
  then show ?case
    unfolding etree_iterpath.simps [of lib elem] Let_def subtree_def
    by (auto simp: image_subset_iff)
next
  case (2 lib tg path namespaces add_position positions)
  show ?case by simp
next
  case (3 lib tg path namespaces add_position positions child rest)
  show ?case
  proof (cases "callable (tag child)")
    case True
    have "fst ` set (iterpath_children lib tg path namespaces add_position positions rest)
            \<subseteq> (\<Union>c\<in>set rest. set (subtree c))"
      by (rule 3(1) [OF True])
    moreover have "iterpath_children lib tg path namespaces add_position positions (child # rest)
                   = iterpath_children lib tg path namespaces add_position positions rest"
      using True by simp
    ultimately show ?thesis by (auto simp: image_subset_iff)
  next
    case False
    show ?thesis
    proof (cases "positions (tag child)")
      case None
      have a: "fst ` set (etree_iterpath lib child tg (child_path_of lib path namespaces child)
                            namespaces add_position) \<subseteq> set (subtree child)"
        by (rule 3(2) [OF False refl None])
      have b: "fst ` set (iterpath_children lib tg path namespaces add_position positions rest)
                 \<subseteq> (\<Union>c\<in>set rest. set (subtree c))"
        by (rule 3(3) [OF False refl None])
      have eq: "iterpath_children lib tg path namespaces add_position positions (child # rest) =
                etree_iterpath lib child tg (child_path_of lib path namespaces child)
                  namespaces add_position
                @ iterpath_children lib tg path namespaces add_position positions rest"
        using False None by (simp add: Let_def)
      show ?thesis unfolding eq using a b by (auto simp: image_subset_iff)
    next
      case (Some n)
      have a: "fst ` set (etree_iterpath lib child tg
                            (child_path_of lib path namespaces child @ ''['' @ str_nat n @ '']'')
                            namespaces add_position) \<subseteq> set (subtree child)"
        by (rule 3(4) [OF False refl Some])
      have b: "fst ` set (iterpath_children lib tg path namespaces add_position
                            (positions(tag child \<mapsto> n + 1)) rest)
                 \<subseteq> (\<Union>c\<in>set rest. set (subtree c))"
        by (rule 3(5) [OF False refl Some])
      have eq: "iterpath_children lib tg path namespaces add_position positions (child # rest) =
                etree_iterpath lib child tg
                  (child_path_of lib path namespaces child @ ''['' @ str_nat n @ '']'')
                  namespaces add_position
                @ iterpath_children lib tg path namespaces add_position
                    (positions(tag child \<mapsto> n + 1)) rest"
        using False Some by (simp add: Let_def)
      show ?thesis unfolding eq using a b by (auto simp: image_subset_iff)
    qed
  qed
qed

lemma subtree_trans: "e \<in> set (subtree root) \<Longrightarrow> set (subtree e) \<subseteq> set (subtree root)"
proof (induction root rule: descendants.induct)
  case (1 i t a tx ta cs)
  then show ?case by (fastforce simp: subtree_def)
qed

lemma child_in_subtree: "c \<in> set (children e) \<Longrightarrow> c \<in> set (subtree e)"
  by (cases e) (auto simp: subtree_def)

text \<open>
  Claim C8. When no element of the subtree of \<open>root\<close> is \<open>elem\<close>,
  \<^verbatim>\<open>etree_getpath\<close> returns \<^verbatim>\<open>None\<close>, with \<open>parent_path\<close> and without, and whatever the
  other arguments are. The model has no exception to raise: the function returns.
\<close>

theorem etree_getpath_absent:
  assumes "ident elem \<notin> ident ` set (subtree root)"
  shows "etree_getpath lib elem root namespaces relative add_position parent_path = None"
proof -
  have no_child: "\<not> is_child_of elem e" if "e \<in> set (subtree root)" for e
  proof
    assume "is_child_of elem e"
    then obtain c where c: "c \<in> set (children e)" "ident c = ident elem"
      by (auto simp: is_child_of_def list_ex_iff)
    from c(1) that have "c \<in> set (subtree root)"
      using subtree_trans child_in_subtree by blast
    with c(2) assms show False by (metis imageI)
  qed
  have not_same: "ident e \<noteq> ident elem" if "e \<in> set (subtree root)" for e
    using that assms by (metis imageI)
  have yields: "e \<in> set (subtree root)"
    if "(e, p) \<in> set (etree_iterpath lib root tg path namespaces add_position)" for e p tg path
    using iterpath_yields_subtree(1) [of lib root tg path namespaces add_position] that
    by force
  have f1: "find (\<lambda>(e, p). ident e = ident elem)
              (etree_iterpath lib root tg path namespaces add_position) = None" for tg path
    using yields not_same by (auto simp: find_None_iff)
  have f2: "find (\<lambda>(e, p). is_child_of elem e)
              (etree_iterpath lib root tg path namespaces add_position) = None" for tg path
    using yields no_child by (auto simp: find_None_iff)
  have "root \<in> set (subtree root)" by (simp add: subtree_def)
  then have "\<not> is_child_of elem root" by (rule no_child)
  then show ?thesis
    by (simp add: etree_getpath_def f1 f2 Let_def)
qed

theorem etree_getpath_absent_witness:
  "ident (Element 9 (Name ''c'') [] None None [])
     \<notin> ident ` set (subtree (Element 0 (Name ''p'') [] None None
                          [Element 1 (Name ''c'') [] None None [Element 2 (Name ''c'') [] None None []]]))
   \<and> etree_getpath plain_names (Element 9 (Name ''c'') [] None None [])
       (Element 0 (Name ''p'') [] None None
          [Element 1 (Name ''c'') [] None None [Element 2 (Name ''c'') [] None None []]])
       None True True False = None
   \<and> etree_getpath plain_names (Element 9 (Name ''c'') [] None None [])
       (Element 0 (Name ''p'') [] None None
          [Element 1 (Name ''c'') [] None None [Element 2 (Name ''c'') [] None None []]])
       None False False True = None"
proof -
  have h: "ident (Element 9 (Name ''c'') [] None None [])
     \<notin> ident ` set (subtree (Element 0 (Name ''p'') [] None None
                          [Element 1 (Name ''c'') [] None None [Element 2 (Name ''c'') [] None None []]]))"
    by (simp add: subtree_def)
  show ?thesis
    using h etree_getpath_absent [OF h, of plain_names None True True False]
      etree_getpath_absent [OF h, of plain_names None False False True]
    by simp
qed

section \<open>The pruner: properties\<close>

lemma remove_child_filter:
  "distinct (map ident cs) \<Longrightarrow> remove_child x cs = filter (\<lambda>y. ident y \<noteq> ident x) cs"
proof (induction cs)
  case (Cons c cs)
  show ?case
  proof (cases "ident c = ident x")
    case True
    with Cons.prems have "\<forall>y\<in>set cs. ident y \<noteq> ident x" by (auto simp: image_iff)
    then have "filter (\<lambda>y. ident y \<noteq> ident x) cs = cs" by (simp add: filter_id_conv)
    with True show ?thesis by simp
  next
    case False
    with Cons show ?thesis by simp
  qed
qed simp

lemma remove_selected_filter:
  "distinct (map ident cs) \<Longrightarrow>
   remove_selected selector copy cs =
     filter (\<lambda>y. \<not> (\<exists>c\<in>set copy. selector c \<and> ident c = ident y)) cs"
proof (induction copy arbitrary: cs)
  case Nil
  show ?case by simp
next
  case (Cons child rest)
  show ?case
  proof (cases "selector child")
    case True
    have d: "distinct (map ident (filter (\<lambda>y. ident y \<noteq> ident child) cs))"
      using Cons.prems by (rule distinct_map_filter)
    have "remove_selected selector (child # rest) cs =
          remove_selected selector rest (filter (\<lambda>y. ident y \<noteq> ident child) cs)"
      using True Cons.prems by (simp add: remove_child_filter)
    also have "\<dots> = filter (\<lambda>y. \<not> (\<exists>c\<in>set rest. selector c \<and> ident c = ident y))
                       (filter (\<lambda>y. ident y \<noteq> ident child) cs)"
      by (rule Cons.IH [OF d])
    also have "\<dots> = filter (\<lambda>y. \<not> (\<exists>c\<in>set (child # rest). selector c \<and> ident c = ident y)) cs"
      using True by (auto intro: filter_cong)
    finally show ?thesis .
  next
    case False
    have "remove_selected selector (child # rest) cs = remove_selected selector rest cs"
      using False by simp
    also have "\<dots> = filter (\<lambda>y. \<not> (\<exists>c\<in>set rest. selector c \<and> ident c = ident y)) cs"
      by (rule Cons.IH [OF Cons.prems])
    also have "\<dots> = filter (\<lambda>y. \<not> (\<exists>c\<in>set (child # rest). selector c \<and> ident c = ident y)) cs"
      using False by (auto intro: filter_cong)
    finally show ?thesis .
  qed
qed

lemma remove_selected_self:
  assumes "distinct (map ident cs)"
  shows "remove_selected selector cs cs = filter (\<lambda>y. \<not> selector y) cs"
proof -
  have inj: "inj_on ident (set cs)" using assms by (simp add: distinct_map)
  have "(\<exists>c\<in>set cs. selector c \<and> ident c = ident y) = selector y" if "y \<in> set cs" for y
    using that inj by (auto dest: inj_onD)
  then have "filter (\<lambda>y. \<not> (\<exists>c\<in>set cs. selector c \<and> ident c = ident y)) cs
             = filter (\<lambda>y. \<not> selector y) cs"
    by (auto intro: filter_cong)
  then show ?thesis using remove_selected_filter [OF assms, of selector cs] by simp
qed

lemma distinct_children:
  assumes "distinct (map ident (subtree e))"
  shows "distinct (map ident (children e))"
    and "c \<in> set (children e) \<Longrightarrow> distinct (map ident (subtree c))"
proof -
  obtain i t a tx ta cs where e: "e = Element i t a tx ta cs" by (cases e)
  have d: "distinct (concat (map (\<lambda>c. map ident (subtree c)) cs))"
    using assms by (simp add: e subtree_def map_concat comp_def)
  show "c \<in> set (children e) \<Longrightarrow> distinct (map ident (subtree c))"
    using d by (auto simp: e distinct_concat_iff)
  have "distinct (map ident cs)" using d
  proof (induction cs)
    case (Cons c cs)
    then show ?case by (auto simp: subtree_def)
  qed simp
  then show "distinct (map ident (children e))" by (simp add: e)
qed

lemma label_prune_subtree [simp]: "label (prune_subtree selector e) = label e"
  by (cases e) (simp add: label_def)

lemma survivors_prune_subtree:
  "distinct (map ident (subtree e)) \<Longrightarrow>
   map label (descendants (prune_subtree selector e)) = map label (survivors selector e)"
proof (induction e rule: descendants.induct)
  case (1 i t a tx ta cs)
  let ?e = "Element i t a tx ta cs"
  have dc: "distinct (map ident cs)" using distinct_children(1) [OF "1.prems"] by simp
  have ds: "distinct (map ident (subtree c))" if "c \<in> set cs" for c
    using distinct_children(2) [OF "1.prems"] that by simp
  have kept: "remove_selected selector cs cs = filter (\<lambda>y. \<not> selector y) cs"
    by (rule remove_selected_self [OF dc])
  have "map label (descendants (prune_subtree selector ?e)) =
        concat (map (\<lambda>c. label (prune_subtree selector c)
                           # map label (descendants (prune_subtree selector c)))
                    (filter (\<lambda>y. \<not> selector y) cs))"
    by (simp add: kept map_concat comp_def)
  also have "\<dots> = concat (map (\<lambda>c. label c # map label (survivors selector c))
                        (filter (\<lambda>y. \<not> selector y) cs))"
  proof -
    have "map label (descendants (prune_subtree selector c)) = map label (survivors selector c)"
      if "c \<in> set (filter (\<lambda>y. \<not> selector y) cs)" for c
      using that "1.IH" [of c] ds [of c] by simp
    then have "map (\<lambda>c. label (prune_subtree selector c)
                           # map label (descendants (prune_subtree selector c)))
                  (filter (\<lambda>y. \<not> selector y) cs)
             = map (\<lambda>c. label c # map label (survivors selector c))
                  (filter (\<lambda>y. \<not> selector y) cs)"
      by (intro map_cong refl) simp
    then show ?thesis by (rule arg_cong)
  qed
  also have "\<dots> = map label (survivors selector ?e)"
    by (simp add: map_concat comp_def)
  finally show ?case .
qed

lemma survivors_unselected:
  "x \<in> set (survivors selector e) \<Longrightarrow> \<not> selector x \<and> x \<in> set (descendants e)"
proof (induction e rule: descendants.induct)
  case (1 i t a tx ta cs)
  then show ?case by fastforce
qed

lemma list_all2_concat_map:
  "(\<And>x. x \<in> set xs \<Longrightarrow> list_all2 R (f x) (g x)) \<Longrightarrow>
   list_all2 R (concat (map f xs)) (concat (map g xs))"
  by (induction xs) (auto intro: list_all2_appendI)

lemma children_prune_subtree:
  "distinct (map ident (subtree e)) \<Longrightarrow>
   children (prune_subtree selector e) =
     map (prune_subtree selector) (filter (\<lambda>c. \<not> selector c) (children e))"
proof (cases e)
  case (Element i t a tx ta cs)
  assume "distinct (map ident (subtree e))"
  then have "distinct (map ident cs)"
    using distinct_children(1) [of e] Element by simp
  then show ?thesis
    by (simp add: Element remove_selected_self)
qed

lemma pruned_node_prune_subtree:
  assumes "distinct (map ident (subtree e))"
  shows "pruned_node selector (prune_subtree selector e) e"
proof -
  have "map label (children (prune_subtree selector e))
        = map label (filter (\<lambda>c. \<not> selector c) (children e))"
    by (simp add: children_prune_subtree [OF assms] comp_def)
  then show ?thesis
    using survivors_prune_subtree [OF assms, of selector]
    by (simp add: pruned_node_def)
qed

lemma subtree_prune_subtree:
  "distinct (map ident (subtree e)) \<Longrightarrow>
   list_all2 (pruned_node selector) (subtree (prune_subtree selector e)) (e # survivors selector e)"
proof (induction e rule: descendants.induct)
  case (1 i t a tx ta cs)
  let ?e = "Element i t a tx ta cs"
  let ?F = "filter (\<lambda>c. \<not> selector c) cs"
  have ds: "distinct (map ident (subtree c))" if "c \<in> set cs" for c
    using distinct_children(2) [OF "1.prems"] that by simp
  have ch: "children (prune_subtree selector ?e) = map (prune_subtree selector) ?F"
    using children_prune_subtree [OF "1.prems", of selector] by simp
  have "descendants (prune_subtree selector ?e)
        = concat (map (\<lambda>c. c # descendants c) (children (prune_subtree selector ?e)))"
    by (cases "prune_subtree selector ?e") simp
  then have d: "descendants (prune_subtree selector ?e)
        = concat (map (\<lambda>c. subtree (prune_subtree selector c)) ?F)"
    by (simp only: ch map_map comp_def subtree_def)
  have s: "survivors selector ?e = concat (map (\<lambda>c. c # survivors selector c) ?F)"
    by simp
  have "list_all2 (pruned_node selector)
          (concat (map (\<lambda>c. subtree (prune_subtree selector c)) ?F))
          (concat (map (\<lambda>c. c # survivors selector c) ?F))"
  proof (rule list_all2_concat_map)
    fix c assume "c \<in> set ?F"
    then have "c \<in> set cs" by simp
    then show "list_all2 (pruned_node selector) (subtree (prune_subtree selector c))
                 (c # survivors selector c)"
      using "1.IH" [of c] ds [of c] by simp
  qed
  then have "list_all2 (pruned_node selector) (descendants (prune_subtree selector ?e))
               (survivors selector ?e)"
    by (simp only: d s)
  moreover have "pruned_node selector (prune_subtree selector ?e) ?e"
    by (rule pruned_node_prune_subtree [OF "1.prems"])
  ultimately show ?case
    by (simp only: subtree_def list_all2_Cons simp_thms)
qed

lemma pruned_node_children:
  "list_all2 (pruned_node selector) xs ys \<Longrightarrow>
   map (\<lambda>n. map label (children n)) xs
     = map (\<lambda>n. map label (filter (\<lambda>c. \<not> selector c) (children n))) ys"
  by (induction rule: list_all2_induct) (simp_all add: pruned_node_def)

text \<open>
  Claim C7, as amended. On a tree whose elements are distinct objects: if the selector
  is true for the root, the root is left with no children, keeps its own tag,
  attributes, text and tail, and \<^verbatim>\<open>True\<close> is returned. Otherwise \<^verbatim>\<open>None\<close> is returned, and
  the tree after the call is, element by element in document order, the root and its
  \<open>survivors\<close>: each of them holds what it held, its children are its former children
  for which the selector is false, in order, and the elements below it are its own
  survivors, so it retains every descendant for which the selector is false and that
  has no element for which it is true between them. The selector is applied to an
  element as it is before the call: no element for which it is true then is left in
  the tree, and when the selector depends only on what an element holds besides its
  children, it is false for every element of the tree after the call.
\<close>

theorem prune_etree_survivors:
  assumes "distinct (map ident (subtree root))"
  shows "(selector root \<longrightarrow>
            prune_etree root selector =
              (Element (ident root) (tag root) (attrib root) (text' root) (tail root) [], Some True))
       \<and> (\<not> selector root \<longrightarrow>
            snd (prune_etree root selector) = None
          \<and> label (fst (prune_etree root selector)) = label root
          \<and> map label (descendants (fst (prune_etree root selector)))
              = map label (survivors selector root)
          \<and> list_all2 (pruned_node selector)
               (subtree (fst (prune_etree root selector))) (root # survivors selector root)
          \<and> (\<forall>d\<in>set (survivors selector root). \<not> selector d)
          \<and> (\<forall>d\<in>set (descendants root).
                 selector d \<longrightarrow>
                 ident d \<notin> ident ` set (descendants (fst (prune_etree root selector))))
          \<and> ((\<forall>e e'. label e = label e' \<longrightarrow> selector e = selector e') \<longrightarrow>
               (\<forall>n\<in>set (descendants (fst (prune_etree root selector))). \<not> selector n)))"
proof (intro conjI impI)
  assume "selector root"
  then show "prune_etree root selector =
      (Element (ident root) (tag root) (attrib root) (text' root) (tail root) [], Some True)"
    by (simp add: prune_etree_def)
next
  assume n: "\<not> selector root"
  then have res: "prune_etree root selector = (prune_subtree selector root, None)"
    by (simp add: prune_etree_def)
  show "snd (prune_etree root selector) = None" by (simp add: res)
  show "label (fst (prune_etree root selector)) = label root" by (simp add: res)
  show kept: "map label (descendants (fst (prune_etree root selector)))
                = map label (survivors selector root)"
    using survivors_prune_subtree [OF assms] by (simp add: res)
  show "list_all2 (pruned_node selector)
          (subtree (fst (prune_etree root selector))) (root # survivors selector root)"
    using subtree_prune_subtree [OF assms, of selector] by (simp add: res)
  show "\<forall>d\<in>set (survivors selector root). \<not> selector d"
    using survivors_unselected by blast
  show "\<forall>d\<in>set (descendants root).
          selector d \<longrightarrow>
          ident d \<notin> ident ` set (descendants (fst (prune_etree root selector)))"
  proof (intro ballI impI notI)
    fix d
    assume d: "d \<in> set (descendants root)" "selector d"
      and "ident d \<in> ident ` set (descendants (fst (prune_etree root selector)))"
    then have "ident d \<in> set (map (fst \<circ> label) (descendants (fst (prune_etree root selector))))"
      by (simp add: label_def comp_def)
    also have "map (fst \<circ> label) (descendants (fst (prune_etree root selector)))
               = map fst (map label (survivors selector root))"
      by (simp only: kept [symmetric] map_map)
    finally obtain s where s: "s \<in> set (survivors selector root)" "ident s = ident d"
      by (auto simp: label_def)
    have s': "\<not> selector s" "s \<in> set (descendants root)"
      using survivors_unselected [OF s(1)] by simp_all
    have "inj_on ident (set (descendants root))"
      using assms by (simp add: subtree_def distinct_map)
    with s(2) s'(2) d(1) have "s = d" by (auto dest: inj_onD)
    with s'(1) d(2) show False by simp
  qed
  {
    assume own: "\<forall>e e'. label e = label e' \<longrightarrow> selector e = selector e'"
    show "\<forall>n\<in>set (descendants (fst (prune_etree root selector))). \<not> selector n"
    proof
      fix n assume "n \<in> set (descendants (fst (prune_etree root selector)))"
      then have "label n \<in> set (map label (descendants (fst (prune_etree root selector))))"
        by simp
      then have "label n \<in> set (map label (survivors selector root))"
        by (simp only: kept)
      then obtain s where s: "s \<in> set (survivors selector root)" "label s = label n"
        by auto
      have "\<not> selector s" using survivors_unselected [OF s(1)] by simp
      with own s(2) show "\<not> selector n" by blast
    qed
  }
qed

theorem prune_etree_survivors_witness:
  "distinct (map ident (subtree
     (Element 0 (Name ''r'') [] None None
        [Element 1 (Name ''a'') [] None None
           [Element 2 (Name ''x'') [] None None [Element 3 (Name ''b'') [] None None []]],
         Element 4 (Name ''x'') [] None None [],
         Element 5 (Name ''c'') [] None None [Element 6 (Name ''d'') [] None None []]])))
   \<and> prune_etree
       (Element 0 (Name ''r'') [] None None
        [Element 1 (Name ''a'') [] None None
           [Element 2 (Name ''x'') [] None None [Element 3 (Name ''b'') [] None None []]],
         Element 4 (Name ''x'') [] None None [],
         Element 5 (Name ''c'') [] None None [Element 6 (Name ''d'') [] None None []]])
       (\<lambda>e. tag e = Name ''r'')
     = (Element 0 (Name ''r'') [] None None [], Some True)
   \<and> snd (prune_etree
       (Element 0 (Name ''r'') [] None None
        [Element 1 (Name ''a'') [] None None
           [Element 2 (Name ''x'') [] None None [Element 3 (Name ''b'') [] None None []]],
         Element 4 (Name ''x'') [] None None [],
         Element 5 (Name ''c'') [] None None [Element 6 (Name ''d'') [] None None []]])
       (\<lambda>e. tag e = Name ''x'')) = None
   \<and> map ident (descendants (fst (prune_etree
       (Element 0 (Name ''r'') [] None None
        [Element 1 (Name ''a'') [] None None
           [Element 2 (Name ''x'') [] None None [Element 3 (Name ''b'') [] None None []]],
         Element 4 (Name ''x'') [] None None [],
         Element 5 (Name ''c'') [] None None [Element 6 (Name ''d'') [] None None []]])
       (\<lambda>e. tag e = Name ''x'')))) = [1, 5, 6]
   \<and> map (\<lambda>n. map (fst \<circ> label) (children n)) (subtree (fst (prune_etree
       (Element 0 (Name ''r'') [] None None
        [Element 1 (Name ''a'') [] None None
           [Element 2 (Name ''x'') [] None None [Element 3 (Name ''b'') [] None None []]],
         Element 4 (Name ''x'') [] None None [],
         Element 5 (Name ''c'') [] None None [Element 6 (Name ''d'') [] None None []]])
       (\<lambda>e. tag e = Name ''x'')))) = [[1, 5], [], [6], []]
   \<and> list_all (\<lambda>n. tag n \<noteq> Name ''x'') (descendants (fst (prune_etree
       (Element 0 (Name ''r'') [] None None
        [Element 1 (Name ''a'') [] None None
           [Element 2 (Name ''x'') [] None None [Element 3 (Name ''b'') [] None None []]],
         Element 4 (Name ''x'') [] None None [],
         Element 5 (Name ''c'') [] None None [Element 6 (Name ''d'') [] None None []]])
       (\<lambda>e. tag e = Name ''x''))))"
proof -
  let ?T = "(Element 0 (Name ''r'') [] None None
        [Element 1 (Name ''a'') [] None None
           [Element 2 (Name ''x'') [] None None [Element 3 (Name ''b'') [] None None []]],
         Element 4 (Name ''x'') [] None None [],
         Element 5 (Name ''c'') [] None None [Element 6 (Name ''d'') [] None None []]])"
  let ?x = "\<lambda>e. tag e = Name ''x''"
  let ?r = "\<lambda>e. tag e = Name ''r''"
  have h: "distinct (map ident (subtree ?T))" by (simp add: subtree_def)
  have r: "?r ?T" and x: "\<not> ?x ?T" by simp_all
  have own: "\<forall>e e'. label e = label e' \<longrightarrow> ?x e = ?x e'" by (simp add: label_def)
  have t1: "prune_etree ?T ?r = (Element 0 (Name ''r'') [] None None [], Some True)"
    using prune_etree_survivors [OF h, of ?r, THEN conjunct1] r by simp
  note t2 = prune_etree_survivors [OF h, of ?x, THEN conjunct2, rule_format, OF x]
  have t3: "snd (prune_etree ?T ?x) = None"
    using t2 by (rule conjunct1)
  have k: "map label (descendants (fst (prune_etree ?T ?x))) = map label (survivors ?x ?T)"
    using t2 by (elim conjE)
  have s: "list_all2 (pruned_node ?x) (subtree (fst (prune_etree ?T ?x))) (?T # survivors ?x ?T)"
    using t2 by (elim conjE)
  have "\<forall>n\<in>set (descendants (fst (prune_etree ?T ?x))). \<not> ?x n"
    using t2 own by (elim conjE) blast
  then have t6: "list_all (\<lambda>n. tag n \<noteq> Name ''x'') (descendants (fst (prune_etree ?T ?x)))"
    by (simp only: list_all_iff)
  have "map ident (descendants (fst (prune_etree ?T ?x)))
        = map fst (map label (descendants (fst (prune_etree ?T ?x))))"
    by (simp add: label_def comp_def)
  also have "\<dots> = map fst (map label (survivors ?x ?T))"
    by (simp only: k)
  also have "\<dots> = [1, 5, 6]"
    by (simp add: label_def)
  finally have t4: "map ident (descendants (fst (prune_etree ?T ?x))) = [1, 5, 6]" .
  have "map (\<lambda>n. map (fst \<circ> label) (children n)) (subtree (fst (prune_etree ?T ?x)))
        = map (map fst) (map (\<lambda>n. map label (children n)) (subtree (fst (prune_etree ?T ?x))))"
    by (simp add: comp_def)
  also have "\<dots> = map (map fst)
        (map (\<lambda>n. map label (filter (\<lambda>c. \<not> ?x c) (children n))) (?T # survivors ?x ?T))"
    by (simp only: pruned_node_children [OF s])
  also have "\<dots> = [[1, 5], [], [6], []]"
    by (simp add: label_def)
  finally have t5: "map (\<lambda>n. map (fst \<circ> label) (children n)) (subtree (fst (prune_etree ?T ?x)))
        = [[1, 5], [], [6], []]" .
  show ?thesis
    by (intro conjI h t1 t3 t4 t5 t6)
qed

text \<open>
  Claim C7, as stated, fails on the tree \<^verbatim>\<open>r(a(x(b)))\<close> with the selector "the tag is
  \<^verbatim>\<open>x\<close>": \<^verbatim>\<open>b\<close> is below \<^verbatim>\<open>a\<close> and the selector is false for both, and after the call
  \<^verbatim>\<open>a\<close> has nothing below it. \<^verbatim>\<open>b\<close> has left the tree with \<^verbatim>\<open>x\<close>.
\<close>

theorem prune_etree_counterexample:
  "prune_etree
     (Element 0 (Name ''r'') [] None None
        [Element 1 (Name ''a'') [] None None
           [Element 2 (Name ''x'') [] None None [Element 3 (Name ''b'') [] None None []]]])
     (\<lambda>e. tag e = Name ''x'')
   = (Element 0 (Name ''r'') [] None None [Element 1 (Name ''a'') [] None None []], None)
   \<and> Element 3 (Name ''b'') [] None None []
       \<in> set (descendants (Element 1 (Name ''a'') [] None None
           [Element 2 (Name ''x'') [] None None [Element 3 (Name ''b'') [] None None []]]))
   \<and> tag (Element 1 (Name ''a'') [] None None
           [Element 2 (Name ''x'') [] None None [Element 3 (Name ''b'') [] None None []]]) \<noteq> Name ''x''
   \<and> tag (Element 3 (Name ''b'') [] None None []) \<noteq> Name ''x''"
  by (simp add: prune_etree_def)

section \<open>The serializer: properties\<close>

lemma strip_empty_iff: "strip l = [] \<longleftrightarrow> (\<forall>c\<in>set l. isspace c)"
proof
  assume "strip l = []"
  then have "dropWhile isspace (rev (dropWhile isspace l)) = []" by (simp add: strip_def)
  then have d: "\<forall>c\<in>set (dropWhile isspace l). isspace c" by (simp add: dropWhile_eq_Nil_conv)
  have "set l = set (takeWhile isspace l) \<union> set (dropWhile isspace l)"
    by (metis set_append takeWhile_dropWhile_id)
  with d show "\<forall>c\<in>set l. isspace c"
    by (auto dest: set_takeWhileD)
next
  assume "\<forall>c\<in>set l. isspace c"
  then show "strip l = []" by (auto simp: strip_def dest: set_dropWhileD)
qed

lemma non_space_positions_Nil_iff:
  "non_space_positions l = [] \<longleftrightarrow> (\<forall>c\<in>set l. c = CHR '' '')"
proof -
  have "non_space_positions l = [] \<longleftrightarrow> (\<forall>k. k < length l \<longrightarrow> l ! k = CHR '' '')"
    by (auto simp add: non_space_positions_def filter_empty_conv)
  also have "\<dots> \<longleftrightarrow> (\<forall>c\<in>set l. c = CHR '' '')"
    by (simp only: all_set_conv_all_nth)
  finally show ?thesis .
qed

lemma non_blank_positions:
  assumes "strip l \<noteq> []"
  shows "non_space_positions l \<noteq> []"
proof
  assume "non_space_positions l = []"
  then have all: "\<forall>c\<in>set l. c = CHR '' ''"
    by (simp only: non_space_positions_Nil_iff)
  from assms obtain c where c: "c \<in> set l" "\<not> isspace c"
    unfolding strip_empty_iff by blast
  have "isspace CHR '' ''" by (simp add: isspace_def)
  with all c show False by metis
qed

lemma last_rev_dropWhile:
  assumes "rev (dropWhile P (rev xs)) \<noteq> []"
  shows "\<not> P (last (rev (dropWhile P (rev xs))))"
proof -
  let ?ys = "dropWhile P (rev xs)"
  from assms have ne: "?ys \<noteq> []" by simp
  then have "\<not> P (hd ?ys)" by (rule hd_dropWhile)
  moreover have "last (rev ?ys) = hd ?ys" using ne by (simp add: last_rev)
  ultimately show ?thesis by simp
qed

lemma tostring_lines_last:
  assumes "tostring_lines xml_text spaces_for_tab xml_declaration \<noteq> []"
  shows "strip (last (tostring_lines xml_text spaces_for_tab xml_declaration)) \<noteq> []"
  using assms unfolding tostring_lines_def Let_def by (rule last_rev_dropWhile)

lemma py_min_ok: "ks \<noteq> [] \<Longrightarrow> \<exists>k. py_min ks = Inr k"
  by (cases ks) simp_all

lemma truncate_lines_long:
  assumes "k + 2 < length lines"
  shows "truncate_lines (Some (int k)) child_indent lines =
           take k lines @ [child_indent @ ''...'', child_indent @ ''...'', last lines]"
proof -
  have ne: "lines \<noteq> []" using assms by auto
  have "drop (length (butlast lines)) (butlast lines @ [last lines]) = [last lines]"
    by simp
  then have "drop (length lines - Suc 0) lines = [last lines]"
    using ne by simp
  moreover have "nat (int (length lines) - 1) = length lines - Suc 0" by simp
  ultimately have "slice_from (- 1) lines = [last lines]"
    by (simp add: slice_from_def)
  moreover have "replicate 2 (child_indent @ ''...'') = [child_indent @ ''...'', child_indent @ ''...'']"
    by (simp add: numeral_2_eq_2)
  ultimately show ?thesis
    using assms by (simp add: truncate_lines_def slice_to_def)
qed

lemma py_min_least:
  assumes "py_min ks = Inr m"
  shows "m \<in> set ks" and "x \<in> set ks \<Longrightarrow> m \<le> x"
proof -
  obtain k ks' where ks: "ks = k # ks'" using assms by (cases ks) simp_all
  have "Min (set (k # ks')) = fold min ks' k" by (rule Min.set_eq_fold)
  then have m: "m = Min (set ks)"
    using assms by (simp only: ks py_min.simps sum.inject)
  show "m \<in> set ks" unfolding m by (rule Min_in) (simp_all add: ks)
  show "x \<in> set ks \<Longrightarrow> m \<le> x" unfolding m by (rule Min_le) simp_all
qed

lemma py_min_leading:
  assumes "py_min (non_space_positions l) = Inr i"
  shows "prefix (replicate i CHR '' '') l"
proof -
  have "i \<in> set (non_space_positions l)" by (rule py_min_least(1) [OF assms])
  then have i: "i < length l" by (simp add: non_space_positions_def)
  have sp: "l ! k = CHR '' ''" if "k < i" for k
  proof (rule ccontr)
    assume "l ! k \<noteq> CHR '' ''"
    with that i have "k \<in> set (non_space_positions l)"
      by (simp add: non_space_positions_def)
    then have "i \<le> k" by (rule py_min_least(2) [OF assms])
    with that show False by simp
  qed
  have "take i l = replicate i CHR '' ''"
    using i sp by (intro nth_equalityI) simp_all
  then have "l = replicate i CHR '' '' @ drop i l"
    by (metis append_take_drop_id)
  then show ?thesis by (metis prefixI)
qed

lemma replicate_le_replicate:
  "(replicate j c \<le> replicate i (c :: char)) \<longleftrightarrow> j \<le> i"
proof (induction j arbitrary: i)
  case 0
  show ?case by simp
next
  case (Suc j)
  show ?case by (cases i) (simp_all add: Suc)
qed

lemma min_replicate:
  "min (replicate j c) (replicate i (c :: char)) = replicate (min j i) c"
  by (simp add: min_def replicate_le_replicate)

lemma reindent_prefix:
  assumes "line \<noteq> []" and "prefix min_indent line"
  shows "reindent indent min_indent (int (length min_indent) - int (length indent)) line =
           (if length indent \<le> length min_indent
            then drop (length min_indent - length indent) line
            else drop (length min_indent) indent @ line)"
proof (cases "length indent \<le> length min_indent")
  case True
  then have "nat (int (length min_indent) - int (length indent)) = length min_indent - length indent"
    by simp
  with True assms show ?thesis by (simp add: reindent_def slice_from_def)
next
  case False
  then have "nat (int (length indent) + (int (length min_indent) - int (length indent)))
             = length min_indent"
    by simp
  with False assms show ?thesis by (simp add: reindent_def slice_from_def)
qed

lemma reindent_keeps_content:
  assumes "set min_indent \<subseteq> {CHR '' ''}"
  shows "suffix (content line)
           (reindent indent min_indent (int (length min_indent) - int (length indent)) line)"
proof (cases "line \<noteq> [] \<and> prefix min_indent line")
  case True
  then obtain rest where line: "line = min_indent @ rest" by (auto simp: prefix_def)
  have "content line = content rest"
    using assms unfolding content_def line by (intro dropWhile_append2) auto
  then have c: "suffix (content line) rest"
    by (simp add: content_def suffix_dropWhile)
  show ?thesis
  proof (cases "length indent \<le> length min_indent")
    case le: True
    have "drop (length min_indent - length indent) line
          = drop (length min_indent - length indent) min_indent @ rest"
      by (simp add: line)
    then show ?thesis
      using True le c by (simp add: reindent_prefix suffix_appendI)
  next
    case gt: False
    have "suffix (content line) line" by (simp add: content_def suffix_dropWhile)
    then show ?thesis
      using True gt by (simp add: reindent_prefix suffix_appendI)
  qed
next
  case False
  have "suffix (content line) line" by (simp add: content_def suffix_dropWhile)
  then show ?thesis
    using False by (auto simp: reindent_def content_def suffix_appendI)
qed

lemma join_lines_last: "xs \<noteq> [] \<Longrightarrow> suffix (last xs) (join_lines xs)"
proof (induction xs rule: join_lines.induct)
  case 1
  then show ?case by simp
next
  case (2 x)
  show ?case by simp
next
  case (3 x y ys)
  then have "suffix (last (y # ys)) (join_lines (y # ys))" by simp
  then have "suffix (last (y # ys)) (x @ [CHR 0x0A] @ join_lines (y # ys))"
    by (intro suffix_appendI)
  then show ?case by simp
qed

lemma content_not_blank: "strip l \<noteq> [] \<Longrightarrow> content l \<noteq> []"
proof -
  assume "strip l \<noteq> []"
  then obtain c where c: "c \<in> set l" "\<not> isspace c"
    unfolding strip_empty_iff by blast
  have "isspace CHR '' ''" by (simp add: isspace_def)
  with c have "c \<noteq> CHR '' ''" by metis
  with c(1) show ?thesis by (auto simp: content_def dropWhile_eq_Nil_conv)
qed

text \<open>
  Claim C5, as amended. Let \<open>lines\<close> be the lines before truncation, more than
  \<open>k + 2\<close> of them, one of those strictly between the first and the last holding a
  character other than a space. Then the indentations are computed, and with
  \<open>max_lines = k\<close> the function returns \<open>k + 3\<close> lines joined by newlines: the first
  \<open>k\<close> lines, two marker lines \<open>child_indent\<close> followed by three dots, and the last line,
  each passed through \<^verbatim>\<open>reindent\<close>. What \<^verbatim>\<open>reindent\<close> does to them: every one of the first
  \<open>k\<close> lines keeps all it holds after its leading spaces; a marker is three dots
  after spaces, \<open>length child_indent + length indent - length min_indent\<close> of them when
  \<open>indent\<close> is not longer than \<open>min_indent\<close>, and else after the part of \<open>indent\<close> beyond
  \<open>min_indent\<close> and \<open>child_indent\<close>; the last line loses
  \<open>length min_indent - length indent\<close> of its leading spaces or gets that part of
  \<open>indent\<close> in front. So the returned string ends with the closing tag, which is not
  blank, in full after its indentation.
\<close>

theorem etree_tostring_truncated:
  assumes "lines = tostring_lines xml_text spaces_for_tab xml_declaration"
      and "k + 2 < length lines"
      and "\<exists>l\<in>set (butlast (tl lines)). \<exists>c\<in>set l. c \<noteq> CHR '' ''"
  shows "\<exists>last_indent child_indent min_indent outs.
           indents lines = Inr (last_indent, child_indent, min_indent)
         \<and> etree_tostring xml_text indent (Some (int k)) spaces_for_tab xml_declaration =
             Inr (join_lines outs)
         \<and> outs = map (reindent indent min_indent (int (length min_indent) - int (length indent)))
                      (take k lines
                       @ [child_indent @ ''...'', child_indent @ ''...'', last lines])
         \<and> length outs = k + 3
         \<and> list_all2 (\<lambda>line out. suffix (content line) out) (take k lines) (take k outs)
         \<and> outs ! k =
               (if length indent \<le> length min_indent
                then replicate (length child_indent + length indent - length min_indent) CHR '' ''
                     @ ''...''
                else drop (length min_indent) indent @ child_indent @ ''...'')
         \<and> outs ! (k + 1) = outs ! k
         \<and> outs ! (k + 2) =
               (if length indent \<le> length min_indent
                then drop (length min_indent - length indent) (last lines)
                else drop (length min_indent) indent @ last lines)
         \<and> suffix (content (last lines)) (outs ! (k + 2))
         \<and> suffix (content (last lines)) (join_lines outs)
         \<and> content (last lines) \<noteq> []
         \<and> set child_indent \<subseteq> {CHR '' ''}
         \<and> prefix min_indent child_indent
         \<and> prefix min_indent (last lines)"
proof -
  have ne: "lines \<noteq> []" using assms(2) by auto
  have nb: "strip (last lines) \<noteq> []"
    using tostring_lines_last [of xml_text spaces_for_tab xml_declaration] ne
    by (simp add: assms(1))
  then obtain i where i: "py_min (non_space_positions (last lines)) = Inr i"
    using py_min_ok [OF non_blank_positions] by blast
  have "concat (map non_space_positions (butlast (tl lines))) \<noteq> []"
    using assms(3) by (auto simp: non_space_positions_Nil_iff)
  then obtain j where j: "py_min (concat (map non_space_positions (butlast (tl lines)))) = Inr j"
    using py_min_ok by blast
  define last_indent where "last_indent = replicate i CHR '' ''"
  define child_indent where "child_indent = replicate j CHR '' ''"
  define min_indent where "min_indent = replicate (min j i) CHR '' ''"
  define start where "start = int (length min_indent) - int (length indent)"
  define marker where "marker = child_indent @ ''...''"
  define outs where
    "outs = map (reindent indent min_indent start) (take k lines @ [marker, marker, last lines])"
  have mi: "min child_indent last_indent = min_indent"
    by (simp add: child_indent_def last_indent_def min_indent_def min_replicate)
  have ind: "indents lines = Inr (last_indent, child_indent, min_indent)"
    using ne assms(2) i j
    by (simp add: indents_def Let_def mi [symmetric] last_indent_def child_indent_def)
  have "etree_tostring xml_text indent (Some (int k)) spaces_for_tab xml_declaration =
          Inr (join_lines (map (reindent indent min_indent start)
                             (truncate_lines (Some (int k)) child_indent lines)))"
    using ind by (simp add: etree_tostring_def assms(1) [symmetric] Let_def start_def)
  then have res: "etree_tostring xml_text indent (Some (int k)) spaces_for_tab xml_declaration =
          Inr (join_lines outs)"
    by (simp add: truncate_lines_long [OF assms(2)] outs_def marker_def)
  have lk: "length (take k lines) = k" using assms(2) by simp
  have len: "length outs = k + 3" using assms(2) by (simp add: outs_def)
  have sp: "set min_indent \<subseteq> {CHR '' ''}" by (auto simp: min_indent_def)
  have spc: "set child_indent \<subseteq> {CHR '' ''}" by (auto simp: child_indent_def)
  have keep: "suffix (content line) (reindent indent min_indent start line)" for line
    unfolding start_def by (rule reindent_keeps_content [OF sp])
  have "take k outs = map (reindent indent min_indent start) (take k lines)"
    using assms(2) by (simp add: outs_def)
  then have first: "list_all2 (\<lambda>line out. suffix (content line) out) (take k lines) (take k outs)"
    by (simp add: list_all2_map2 list_all2_same keep)
  have "child_indent = min_indent @ replicate (j - min j i) CHR '' ''"
    by (simp add: child_indent_def min_indent_def replicate_add [symmetric])
  then have pc: "prefix min_indent child_indent" by (metis prefixI)
  then have pm: "prefix min_indent marker" by (simp add: marker_def prefix_prefix)
  have "prefix (replicate i CHR '' '') (last lines)" by (rule py_min_leading [OF i])
  moreover have "replicate i CHR '' '' = min_indent @ replicate (i - min j i) CHR '' ''"
    by (simp add: min_indent_def replicate_add [symmetric])
  ultimately have pl: "prefix min_indent (last lines)"
    by (metis prefix_order.trans prefixI)
  have cl: "content (last lines) \<noteq> []" by (rule content_not_blank [OF nb])
  then have ll: "last lines \<noteq> []" by (auto simp: content_def)
  have ok: "outs ! k = reindent indent min_indent start marker"
    using assms(2) by (simp add: outs_def nth_append)
  have ok1: "outs ! (k + 1) = reindent indent min_indent start marker"
    using assms(2) by (simp add: outs_def nth_append)
  have ok2: "outs ! (k + 2) = reindent indent min_indent start (last lines)"
    using assms(2) by (simp add: outs_def nth_append)
  have "drop (length min_indent - length indent) marker
        = replicate (length child_indent + length indent - length min_indent) CHR '' '' @ ''...''"
    if "length indent \<le> length min_indent"
    using that by (simp add: marker_def child_indent_def min_indent_def)
  then have m: "reindent indent min_indent start marker =
          (if length indent \<le> length min_indent
           then replicate (length child_indent + length indent - length min_indent) CHR '' ''
                @ ''...''
           else drop (length min_indent) indent @ child_indent @ ''...'')"
    unfolding start_def using reindent_prefix [OF _ pm, of indent]
    by (simp add: marker_def)
  have l: "reindent indent min_indent start (last lines) =
          (if length indent \<le> length min_indent
           then drop (length min_indent - length indent) (last lines)
           else drop (length min_indent) indent @ last lines)"
    unfolding start_def by (rule reindent_prefix [OF ll pl])
  show ?thesis
  proof (intro exI conjI)
    show "indents lines = Inr (last_indent, child_indent, min_indent)" by (rule ind)
    show "etree_tostring xml_text indent (Some (int k)) spaces_for_tab xml_declaration =
             Inr (join_lines outs)" by (rule res)
    show "outs = map (reindent indent min_indent (int (length min_indent) - int (length indent)))
                      (take k lines
                       @ [child_indent @ ''...'', child_indent @ ''...'', last lines])"
      by (simp add: outs_def start_def marker_def)
    show "length outs = k + 3" by (rule len)
    show "list_all2 (\<lambda>line out. suffix (content line) out) (take k lines) (take k outs)"
      by (rule first)
    show "outs ! k =
               (if length indent \<le> length min_indent
                then replicate (length child_indent + length indent - length min_indent) CHR '' ''
                     @ ''...''
                else drop (length min_indent) indent @ child_indent @ ''...'')"
      by (simp only: ok m)
    show "outs ! (k + 1) = outs ! k" by (simp only: ok ok1)
    show "outs ! (k + 2) =
               (if length indent \<le> length min_indent
                then drop (length min_indent - length indent) (last lines)
                else drop (length min_indent) indent @ last lines)"
      by (simp only: ok2 l)
    show e: "suffix (content (last lines)) (outs ! (k + 2))"
      by (simp only: ok2 keep)
    have "outs \<noteq> []" using len by auto
    then have "suffix (last outs) (join_lines outs)" by (rule join_lines_last)
    moreover have "last outs = outs ! (k + 2)"
      using len by (simp add: last_conv_nth \<open>outs \<noteq> []\<close>)
    ultimately show "suffix (content (last lines)) (join_lines outs)"
      using e by (metis suffix_order.trans)
    show "content (last lines) \<noteq> []" by (rule cl)
    show "set child_indent \<subseteq> {CHR '' ''}" by (rule spc)
    show "prefix min_indent child_indent" by (rule pc)
    show "prefix min_indent (last lines)" by (rule pl)
  qed
qed

theorem etree_tostring_truncated_witness:
  "1 + 2 < length (tostring_lines ''<a>\<newline>    <b/>\<newline>    <c/>\<newline>    <d/>\<newline>  </a>'' 4 False)
   \<and> (\<exists>l\<in>set (butlast (tl (tostring_lines ''<a>\<newline>    <b/>\<newline>    <c/>\<newline>    <d/>\<newline>  </a>'' 4 False))). \<exists>c\<in>set l. c \<noteq> CHR '' '')
   \<and> etree_tostring ''<a>\<newline>    <b/>\<newline>    <c/>\<newline>    <d/>\<newline>  </a>'' [] (Some 1) 4 False = Inr ''<a>\<newline>  ...\<newline>  ...\<newline></a>''"
proof -
  let ?X = "''<a>\<newline>    <b/>\<newline>    <c/>\<newline>    <d/>\<newline>  </a>''"
  have L: "tostring_lines ?X 4 False = [''<a>'', ''    <b/>'', ''    <c/>'', ''    <d/>'', ''  </a>'']"
    by code_simp
  have h2: "1 + 2 < length (tostring_lines ?X 4 False)"
    by (simp add: L)
  have h3: "\<exists>l\<in>set (butlast (tl (tostring_lines ?X 4 False))). \<exists>c\<in>set l. c \<noteq> CHR '' ''"
    by (simp add: L)
  have I: "indents (tostring_lines ?X 4 False) = Inr (''  '', ''    '', ''  '')"
    unfolding L by code_simp
  from etree_tostring_truncated [OF refl h2 h3, of "[]"]
  obtain last_indent child_indent min_indent outs where
    a: "indents (tostring_lines ?X 4 False) = Inr (last_indent, child_indent, min_indent)"
    and b: "etree_tostring ?X [] (Some (int 1)) 4 False = Inr (join_lines outs)"
    and c: "outs = map (reindent [] min_indent (int (length min_indent) - int (length ([] :: string))))
                     (take 1 (tostring_lines ?X 4 False)
                      @ [child_indent @ ''...'', child_indent @ ''...'',
                         last (tostring_lines ?X 4 False)])"
    by (elim exE conjE)
  have v: "child_indent = ''    ''" "min_indent = ''  ''"
    using a unfolding I by auto
  have "outs = [''<a>'', ''  ...'', ''  ...'', ''</a>'']"
    unfolding c v L by (simp add: reindent_def slice_from_def)
  with b have "etree_tostring ?X [] (Some 1) 4 False = Inr ''<a>\<newline>  ...\<newline>  ...\<newline></a>''"
    by simp
  with h2 h3 show ?thesis by blast
qed

text \<open>Outside the hypothesis of the theorem: when no line strictly between the first
  and the last holds a character other than a space, line 164 takes the minimum of an
  empty sequence and the function raises \<^verbatim>\<open>ValueError\<close>, here on an element whose text
  is two newlines.\<close>

lemma etree_tostring_blank_middle:
  "etree_tostring ''<a>\<newline>\<newline></a>'' [] (Some 0) 4 False = Inl ValueError"
  by code_simp

text \<open>
  Claim C5, as stated, fails on an element that is serialized with its closing tag
  indented by two spaces and its children by four, with \<open>indent\<close> empty and
  \<open>max_lines = 1\<close>: five lines, \<open>child_indent\<close> is four spaces and \<open>min_indent\<close> two, and
  the result has the markers after two spaces and the closing tag at the margin. It
  is not the first line, two markers after \<open>child_indent\<close> and the last line.
\<close>

theorem etree_tostring_counterexample:
  "tostring_lines ''<a>\<newline>    <b/>\<newline>    <c/>\<newline>    <d/>\<newline>  </a>'' 4 False = [''<a>'', ''    <b/>'', ''    <c/>'', ''    <d/>'', ''  </a>'']
   \<and> indents [''<a>'', ''    <b/>'', ''    <c/>'', ''    <d/>'', ''  </a>''] = Inr (''  '', ''    '', ''  '')
   \<and> etree_tostring ''<a>\<newline>    <b/>\<newline>    <c/>\<newline>    <d/>\<newline>  </a>'' [] (Some 1) 4 False = Inr ''<a>\<newline>  ...\<newline>  ...\<newline></a>''
   \<and> etree_tostring ''<a>\<newline>    <b/>\<newline>    <c/>\<newline>    <d/>\<newline>  </a>'' [] (Some 1) 4 False
       \<noteq> Inr (join_lines [''<a>'', ''    ...'', ''    ...'', ''  </a>''])"
proof (intro conjI)
  show "tostring_lines ''<a>\<newline>    <b/>\<newline>    <c/>\<newline>    <d/>\<newline>  </a>'' 4 False = [''<a>'', ''    <b/>'', ''    <c/>'', ''    <d/>'', ''  </a>'']"
    by code_simp
  show "indents [''<a>'', ''    <b/>'', ''    <c/>'', ''    <d/>'', ''  </a>''] = Inr (''  '', ''    '', ''  '')"
    by code_simp
  show e: "etree_tostring ''<a>\<newline>    <b/>\<newline>    <c/>\<newline>    <d/>\<newline>  </a>'' [] (Some 1) 4 False = Inr ''<a>\<newline>  ...\<newline>  ...\<newline></a>''"
    by code_simp
  show "etree_tostring ''<a>\<newline>    <b/>\<newline>    <c/>\<newline>    <d/>\<newline>  </a>'' [] (Some 1) 4 False
       \<noteq> Inr (join_lines [''<a>'', ''    ...'', ''    ...'', ''  </a>''])"
    unfolding e by simp
qed

end
